theory Spec2Isabelle
  imports Main "HOL-Library.Word"
begin

section \<open>Data model of cloc.h\<close>

text \<open>
  \<^verbatim>\<open>file_stats_t\<close>: the counters are \<^verbatim>\<open>uint32_t\<close> (they wrap), the size is an
  \<^verbatim>\<open>off_t\<close>, the language an \<^verbatim>\<open>uint8_t\<close>, the error code an \<^verbatim>\<open>int\<close>.
\<close>

record file_stats =
  path :: string
  size_f :: "64 word"
  lines_code :: "32 word"
  lines_comment :: "32 word"
  lines_blank :: "32 word"
  language :: "8 word"
  error :: int

text \<open>
  \<^verbatim>\<open>lang_syntax_t\<close>. The three markers are C strings, here byte lists;
  \<^verbatim>\<open>strlen\<close> of a marker is its \<open>length\<close>.
\<close>

record lang_syntax =
  name :: string
  extensions :: "string list"
  line_comment :: string
  block_start :: string
  block_end :: string
  lang_id :: "8 word"

definition CLOC_LANG_C :: "8 word" where "CLOC_LANG_C = 1"
definition CLOC_LANG_CPP :: "8 word" where "CLOC_LANG_CPP = 2"
definition CLOC_LANG_PYTHON :: "8 word" where "CLOC_LANG_PYTHON = 3"
definition CLOC_LANG_JAVA :: "8 word" where "CLOC_LANG_JAVA = 4"
definition CLOC_LANG_GO :: "8 word" where "CLOC_LANG_GO = 5"
definition CLOC_LANG_RUST :: "8 word" where "CLOC_LANG_RUST = 6"
definition CLOC_LANG_JS :: "8 word" where "CLOC_LANG_JS = 7"

definition c_like :: "string \<Rightarrow> string list \<Rightarrow> 8 word \<Rightarrow> lang_syntax" where
  "c_like n exts i =
     \<lparr>name = n, extensions = exts, line_comment = ''//'',
      block_start = ''/*'', block_end = ''*/'', lang_id = i\<rparr>"

text \<open>The table \<^verbatim>\<open>languages[]\<close> of cloc.c, without its all-NULL sentinel row.\<close>

definition languages :: "lang_syntax list" where
  "languages =
     [c_like ''C'' [''.c'', ''.h''] CLOC_LANG_C,
      c_like ''C++'' [''.cpp'', ''.hpp'', ''.cc'', ''.hxx'', ''.cxx''] CLOC_LANG_CPP,
      \<lparr>name = ''Python'', extensions = [''.py'', ''.pyw''], line_comment = ''#'',
       block_start = [CHR 0x22, CHR 0x22, CHR 0x22],
       block_end = [CHR 0x22, CHR 0x22, CHR 0x22], lang_id = CLOC_LANG_PYTHON\<rparr>,
      c_like ''Java'' [''.java''] CLOC_LANG_JAVA,
      c_like ''Go'' [''.go''] CLOC_LANG_GO,
      c_like ''Rust'' [''.rs''] CLOC_LANG_RUST,
      c_like ''JavaScript'' [''.js'', ''.jsx'', ''.mjs''] CLOC_LANG_JS]"

definition lang_C :: lang_syntax where
  "lang_C = c_like ''C'' [''.c'', ''.h''] CLOC_LANG_C"

section \<open>Reading the buffer\<close>

text \<open>
  A fault is a read outside the buffer \<^verbatim>\<open>[buf, buf + size)\<close>: undefined behaviour in C,
  a value here. Each place of \<^verbatim>\<open>count_lines\<close> that reads through the cursor or at a
  computed address has its own fault; the last one is an index outside \<^verbatim>\<open>languages[]\<close>.
\<close>

datatype fault =
  CursorOutOfBounds | LookbackOutOfBounds | MarkerOutOfBounds | LastByteOutOfBounds
  | TableOutOfBounds

definition peek :: "string \<Rightarrow> int \<Rightarrow> char option" where
  "peek buf i = (if 0 \<le> i \<and> i < int (length buf) then Some (buf ! nat i) else None)"

definition newline :: char where "newline = CHR 0x0A"
definition dquote :: char where "dquote = CHR 0x22"
definition squote :: char where "squote = CHR 0x27"
definition backslash :: char where "backslash = CHR 0x5C"

text \<open>\<^verbatim>\<open>isspace\<close> in the C locale (the program never calls \<^verbatim>\<open>setlocale\<close>).\<close>

definition isspace :: "char \<Rightarrow> bool" where
  "isspace c = (c = CHR 0x20 \<or> c = CHR 0x09 \<or> c = CHR 0x0A \<or> c = CHR 0x0B
                \<or> c = CHR 0x0C \<or> c = CHR 0x0D)"

text \<open>
  \<^verbatim>\<open>memcmp(p, m, strlen(m)) == 0\<close>: reads \<open>length m\<close> bytes from the cursor;
  \<open>None\<close> when one of them lies outside the buffer.
\<close>

fun memcmp_eq :: "string \<Rightarrow> int \<Rightarrow> string \<Rightarrow> bool option" where
  "memcmp_eq buf i [] = Some True"
| "memcmp_eq buf i (c # cs) =
     (case peek buf i of
        None \<Rightarrow> None
      | Some b \<Rightarrow> (case memcmp_eq buf (i + 1) cs of
                     None \<Rightarrow> None
                   | Some r \<Rightarrow> Some (b = c \<and> r)))"

text \<open>
  \<^verbatim>\<open>p + strlen(m) <= end && memcmp(p, m, strlen(m)) == 0\<close>, with the short circuit
  of \<^verbatim>\<open>&&\<close>: the comparison runs only when the marker fits.
\<close>

definition marker_at :: "string \<Rightarrow> nat \<Rightarrow> string \<Rightarrow> fault + bool" where
  "marker_at buf p m =
     (if p + length m \<le> length buf
      then (case memcmp_eq buf (int p) m of
              None \<Rightarrow> Inl MarkerOutOfBounds
            | Some r \<Rightarrow> Inr r)
      else Inr False)"

section \<open>The scanner \<^verbatim>\<open>count_lines\<close>\<close>

record scan_state =
  p :: nat
  in_block_comment :: bool
  in_line_comment :: bool
  has_code :: bool
  in_string :: bool
  string_char :: char
  stats :: file_stats

text \<open>The end-of-line branch: one counter is incremented.\<close>

definition classify_line :: "scan_state \<Rightarrow> file_stats" where
  "classify_line s =
     (if in_line_comment s then (stats s)\<lparr>lines_comment := lines_comment (stats s) + 1\<rparr>
      else if in_block_comment s then (stats s)\<lparr>lines_comment := lines_comment (stats s) + 1\<rparr>
      else if has_code s then (stats s)\<lparr>lines_code := lines_code (stats s) + 1\<rparr>
      else (stats s)\<lparr>lines_blank := lines_blank (stats s) + 1\<rparr>)"

text \<open>
  The block ``Handle strings''. The byte before the cursor is read only when the
  scanner is in a string and the current byte is the remembered quote.
\<close>

definition handle_strings :: "string \<Rightarrow> char \<Rightarrow> scan_state \<Rightarrow> fault + scan_state" where
  "handle_strings buf c s =
     (if \<not> in_line_comment s \<and> \<not> in_block_comment s then
        (if \<not> in_string s \<and> (c = dquote \<or> c = squote) then
           Inr (s\<lparr>in_string := True, string_char := c, has_code := True\<rparr>)
         else if in_string s \<and> c = string_char s then
           (case peek buf (int (p s) - 1) of
              None \<Rightarrow> Inl LookbackOutOfBounds
            | Some b \<Rightarrow> Inr (if b \<noteq> backslash then s\<lparr>in_string := False\<rparr> else s))
         else Inr s)
      else Inr s)"

text \<open>The comment rules and ``Count code'', reached when the scanner is not in a string.\<close>

definition handle_comments :: "string \<Rightarrow> lang_syntax \<Rightarrow> scan_state \<Rightarrow> fault + scan_state" where
  "handle_comments buf lang s =
     (case (if \<not> in_line_comment s \<and> \<not> in_block_comment s
            then marker_at buf (p s) (block_start lang) else Inr False) of
        Inl e \<Rightarrow> Inl e
      | Inr True \<Rightarrow> Inr (s\<lparr>in_block_comment := True, p := p s + length (block_start lang)\<rparr>)
      | Inr False \<Rightarrow>
     (case (if in_block_comment s
            then marker_at buf (p s) (block_end lang) else Inr False) of
        Inl e \<Rightarrow> Inl e
      | Inr True \<Rightarrow> Inr (s\<lparr>in_block_comment := False, p := p s + length (block_end lang)\<rparr>)
      | Inr False \<Rightarrow>
     (case (if \<not> in_block_comment s \<and> \<not> in_line_comment s
            then marker_at buf (p s) (line_comment lang) else Inr False) of
        Inl e \<Rightarrow> Inl e
      | Inr True \<Rightarrow> Inr (s\<lparr>in_line_comment := True, p := p s + length (line_comment lang)\<rparr>)
      | Inr False \<Rightarrow>
          Inr ((if \<not> in_block_comment s \<and> \<not> in_line_comment s
                then s\<lparr>has_code := True\<rparr> else s)\<lparr>p := p s + 1\<rparr>))))"

text \<open>One iteration of \<^verbatim>\<open>while (p < end)\<close>.\<close>

definition loop_body :: "string \<Rightarrow> lang_syntax \<Rightarrow> scan_state \<Rightarrow> fault + scan_state" where
  "loop_body buf lang s =
     (case peek buf (int (p s)) of
        None \<Rightarrow> Inl CursorOutOfBounds
      | Some c \<Rightarrow>
          if c = newline \<or> int (p s) = int (length buf) - 1 then
            Inr (s\<lparr>stats := classify_line s, in_line_comment := False,
                   has_code := False, p := p s + 1\<rparr>)
          else if isspace c then Inr (s\<lparr>p := p s + 1\<rparr>)
          else (case handle_strings buf c s of
                  Inl e \<Rightarrow> Inl e
                | Inr s1 \<Rightarrow>
                    if in_string s1 then Inr (s1\<lparr>p := p s1 + 1\<rparr>)
                    else handle_comments buf lang s1))"

text \<open>
  The loop. It need not end (an empty marker matches without moving the cursor), so
  the result is an option: \<open>None\<close> is a run that never leaves the loop.
\<close>

partial_function (option) scan_loop ::
  "string \<Rightarrow> lang_syntax \<Rightarrow> scan_state \<Rightarrow> (fault + scan_state) option" where
  "scan_loop buf lang s =
     (if p s < length buf then
        (case loop_body buf lang s of
           Inl e \<Rightarrow> Some (Inl e)
         | Inr s' \<Rightarrow> scan_loop buf lang s')
      else Some (Inr s))"

declare scan_loop.simps [code]

definition init_scan :: "string \<Rightarrow> file_stats \<Rightarrow> scan_state" where
  "init_scan buf st =
     \<lparr>p = 0, in_block_comment = False, in_line_comment = False, has_code = False,
      in_string = False, string_char = CHR 0x00,
      stats = st\<lparr>size_f := of_nat (length buf)\<rparr>\<rparr>"

text \<open>``Handle last line if it doesn't end with newline''.\<close>

definition last_line :: "string \<Rightarrow> scan_state \<Rightarrow> fault + file_stats" where
  "last_line buf s =
     (if has_code s then
        (case peek buf (int (length buf) - 1) of
           None \<Rightarrow> Inl LastByteOutOfBounds
         | Some c \<Rightarrow> Inr (if c \<noteq> newline
                          then (stats s)\<lparr>lines_code := lines_code (stats s) + 1\<rparr>
                          else stats s))
      else Inr (stats s))"

definition count_lines :: "string \<Rightarrow> lang_syntax \<Rightarrow> file_stats \<Rightarrow> (fault + file_stats) option" where
  "count_lines buf lang st =
     (case scan_loop buf lang (init_scan buf st) of
        None \<Rightarrow> None
      | Some (Inl e) \<Rightarrow> Some (Inl e)
      | Some (Inr s) \<Rightarrow> Some (last_line buf s))"

text \<open>\<^verbatim>\<open>init_file_stats\<close>: \<^verbatim>\<open>memset\<close> to zero.\<close>

definition init_file_stats :: file_stats where
  "init_file_stats =
     \<lparr>path = [], size_f = 0, lines_code = 0, lines_comment = 0, lines_blank = 0,
      language = 0, error = 0\<rparr>"


section \<open>Notions the properties are stated with\<close>

definition nonempty_markers :: "lang_syntax \<Rightarrow> bool" where
  "nonempty_markers lang =
     (block_start lang \<noteq> [] \<and> block_end lang \<noteq> [] \<and> line_comment lang \<noteq> [])"

text \<open>The condition of the end-of-line branch at cursor \<open>k\<close>.\<close>

definition eol_at :: "string \<Rightarrow> nat \<Rightarrow> bool" where
  "eol_at buf k = (buf ! k = newline \<or> k + 1 = length buf)"

definition num_newlines :: "string \<Rightarrow> nat" where
  "num_newlines buf = length (filter (\<lambda>c. c = newline) buf)"

text \<open>Lines of a buffer: its newlines, and one more for a final line without newline.\<close>

definition num_lines :: "string \<Rightarrow> nat" where
  "num_lines buf =
     num_newlines buf + (if buf \<noteq> [] \<and> last buf \<noteq> newline then 1 else 0)"

definition total_lines :: "file_stats \<Rightarrow> nat" where
  "total_lines st = unat (lines_code st) + unat (lines_comment st) + unat (lines_blank st)"

text \<open>The first \<open>n\<close> iterations of the loop: the states the scanner goes through.\<close>

fun iterate_body :: "nat \<Rightarrow> string \<Rightarrow> lang_syntax \<Rightarrow> scan_state \<Rightarrow> fault + scan_state" where
  "iterate_body 0 buf lang s = Inr s"
| "iterate_body (Suc n) buf lang s =
     (if p s < length buf then
        (case loop_body buf lang s of
           Inl e \<Rightarrow> Inl e
         | Inr s' \<Rightarrow> iterate_body n buf lang s')
      else Inr s)"

text \<open>The state after the end-of-line branch.\<close>

definition end_of_line :: "scan_state \<Rightarrow> scan_state" where
  "end_of_line s =
     s\<lparr>stats := classify_line s, in_line_comment := False, has_code := False, p := p s + 1\<rparr>"

text \<open>
  The invariant of the cursor: it is in the buffer or at its end, and it has moved
  when a string is open or code was seen.
\<close>

definition cursor_inv :: "string \<Rightarrow> scan_state \<Rightarrow> bool" where
  "cursor_inv buf s =
     (p s \<le> length buf \<and> (in_string s \<longrightarrow> 0 < p s) \<and> (has_code s \<longrightarrow> 0 < p s))"

text \<open>
  The invariant of the counters, which start at a total of \<open>n0\<close>: they never grow by
  more than the newlines passed, except after the end-of-line branch ran at a final
  byte that is not a newline, and then \<open>has_code\<close> is off.
\<close>

definition count_inv :: "nat \<Rightarrow> string \<Rightarrow> scan_state \<Rightarrow> bool" where
  "count_inv n0 buf s =
     (cursor_inv buf s \<and>
      (total_lines (stats s) \<le> n0 + num_newlines (take (p s) buf)
       \<or> (p s = length buf \<and> \<not> has_code s \<and> total_lines (stats s) \<le> n0 + num_lines buf)))"

text \<open>The fields of the statistics that the loop leaves alone, and the size it was given.\<close>

definition frame_inv :: "file_stats \<Rightarrow> string \<Rightarrow> scan_state \<Rightarrow> bool" where
  "frame_inv st buf s =
     (path (stats s) = path st \<and> language (stats s) = language st
      \<and> error (stats s) = error st \<and> size_f (stats s) = of_nat (length buf))"

text \<open>The 25 bytes \<^verbatim>\<open>/* start\nmid\nend */ x();\n\<close>.\<close>

definition block_example :: string where
  "block_example = ''/* start'' @ [newline] @ ''mid'' @ [newline] @ ''end */ x();'' @ [newline]"

section \<open>The callers: \<^verbatim>\<open>process_file\<close>, \<^verbatim>\<open>process_directory\<close>, \<^verbatim>\<open>main\<close>\<close>

definition CLOC_MAX_PATH :: nat where "CLOC_MAX_PATH = 4096"
definition CLOC_MAX_LANGUAGES :: nat where "CLOC_MAX_LANGUAGES = 128"
definition MAX_EXAMINE_SIZE :: nat where "MAX_EXAMINE_SIZE = 4096"

definition CLOC_SUCCESS :: int where "CLOC_SUCCESS = 0"
definition CLOC_ERROR_IO :: int where "CLOC_ERROR_IO = - 1"
definition CLOC_ERROR_MEM :: int where "CLOC_ERROR_MEM = - 2"
definition CLOC_ERROR_ARG :: int where "CLOC_ERROR_ARG = - 3"
definition CLOC_ERROR_LIMIT :: int where "CLOC_ERROR_LIMIT = - 4"

text \<open>
  What the operating system answers for one file: whether \<^verbatim>\<open>fopen\<close>, \<^verbatim>\<open>open\<close>,
  \<^verbatim>\<open>fstat\<close>, \<^verbatim>\<open>mmap\<close> and \<^verbatim>\<open>malloc\<close> succeed, and the bytes of the file.
\<close>

record file_obj =
  fopen_ok :: bool
  open_ok :: bool
  fstat_ok :: bool
  mmap_ok :: bool
  malloc_ok :: bool
  content :: string

text \<open>
  A directory tree as \<^verbatim>\<open>lstat\<close>, \<^verbatim>\<open>opendir\<close> and \<^verbatim>\<open>readdir\<close> show it: a directory
  has the answer of \<^verbatim>\<open>opendir\<close> and its entries in \<^verbatim>\<open>readdir\<close> order; \<open>NoStat\<close> is a
  name whose \<^verbatim>\<open>lstat\<close> (or \<^verbatim>\<open>stat\<close>) fails; \<open>Special\<close> is neither directory nor
  regular file.
\<close>

datatype fs_node =
    Regular file_obj
  | Directory bool "(string \<times> fs_node) list"
  | Special file_obj
  | NoStat

text \<open>\<^verbatim>\<open>strrchr\<close>: the suffix that starts at the last occurrence, or NULL.\<close>

fun strrchr :: "string \<Rightarrow> char \<Rightarrow> string option" where
  "strrchr [] c = None"
| "strrchr (x # xs) c =
     (case strrchr xs c of
        Some r \<Rightarrow> Some r
      | None \<Rightarrow> if x = c then Some (x # xs) else None)"

text \<open>\<^verbatim>\<open>strstr(h, n) != NULL\<close>.\<close>

fun strstr :: "string \<Rightarrow> string \<Rightarrow> bool" where
  "strstr [] n = (n = [])"
| "strstr (x # xs) n = (take (length n) (x # xs) = n \<or> strstr xs n)"

definition cpp_keywords :: "string list" where
  "cpp_keywords =
     [''class'', ''namespace'', ''template'', ''typename'', ''operator'',
      ''virtual'', ''public:'', ''private:'', ''protected:'', ''friend'']"

text \<open>
  \<^verbatim>\<open>is_cpp_file\<close>: the copy is NUL-terminated, so \<^verbatim>\<open>strstr\<close> sees the bytes before
  the first NUL only.
\<close>

definition is_cpp_file :: "bool \<Rightarrow> string \<Rightarrow> bool" where
  "is_cpp_file malloc_succeeds cont =
     (if \<not> malloc_succeeds then False
      else list_ex (strstr (takeWhile (\<lambda>c. c \<noteq> CHR 0x00) cont)) cpp_keywords)"

definition detect_language :: "string \<Rightarrow> file_obj \<Rightarrow> lang_syntax option" where
  "detect_language pth f =
     (case strrchr pth CHR ''.'' of
        None \<Rightarrow> None
      | Some ext \<Rightarrow>
          (case find (\<lambda>lang. ext \<in> set (extensions lang)) languages of
             None \<Rightarrow> None
           | Some lang \<Rightarrow>
               if ext = ''.h'' then
                 (if \<not> fopen_ok f then Some (languages ! 0)
                  else if is_cpp_file (malloc_ok f) (take MAX_EXAMINE_SIZE (content f))
                       then Some (languages ! 1) else Some (languages ! 0))
               else Some lang))"

text \<open>
  A call either never returns (\<open>None\<close>), or has undefined behaviour (\<open>Inl\<close>), or
  returns a value.
\<close>

type_synonym 'a run = "(fault + 'a) option"

definition process_file :: "string \<Rightarrow> file_obj \<Rightarrow> (int \<times> file_stats) run" where
  "process_file pth f =
     (let st = init_file_stats\<lparr>path := take (CLOC_MAX_PATH - 1) pth\<rparr> in
      case detect_language pth f of
        None \<Rightarrow> Some (Inr (CLOC_ERROR_ARG, st))
      | Some lang \<Rightarrow>
          (let st1 = st\<lparr>language := lang_id lang\<rparr> in
           if \<not> open_ok f then Some (Inr (CLOC_ERROR_IO, st1\<lparr>error := CLOC_ERROR_IO\<rparr>))
           else if \<not> fstat_ok f then Some (Inr (CLOC_ERROR_IO, st1))
           else if length (content f) = 0 then Some (Inr (CLOC_SUCCESS, st1))
           else if \<not> mmap_ok f then Some (Inr (CLOC_ERROR_IO, st1))
           else (case count_lines (content f) lang st1 of
                   None \<Rightarrow> None
                 | Some (Inl e) \<Rightarrow> Some (Inl e)
                 | Some (Inr st2) \<Rightarrow> Some (Inr (CLOC_SUCCESS, st2)))))"

text \<open>
  The callback of \<^verbatim>\<open>process_directory\<close> gets the statistics of a file and the state
  it works on (\<^verbatim>\<open>user_data\<close> and the globals), and returns its code with the new state.
\<close>

type_synonym 'u callback = "file_stats \<Rightarrow> 'u \<Rightarrow> (int \<times> 'u) run"

text \<open>The test that skips hidden entries: \<^verbatim>\<open>d_name[0] == '.' || strcmp(d_name, "..") == 0\<close>.\<close>

definition hidden :: "string \<Rightarrow> bool" where
  "hidden d_name = ((case d_name of [] \<Rightarrow> False | c # _ \<Rightarrow> c = CHR ''.'') \<or> d_name = ''..'')"

text \<open>
  \<^verbatim>\<open>process_directory\<close> and its \<^verbatim>\<open>while ((entry = readdir(dir)))\<close> loop over the
  entries not yet read; \<open>result\<close> is the local variable of that name.
\<close>

fun process_directory :: "string \<Rightarrow> fs_node \<Rightarrow> 'u callback option \<Rightarrow> 'u \<Rightarrow> (int \<times> 'u) run"
  and process_entries ::
    "string \<Rightarrow> (string \<times> fs_node) list \<Rightarrow> 'u callback option \<Rightarrow> 'u \<Rightarrow> int \<Rightarrow> (int \<times> 'u) run"
where
  "process_directory pth (Directory ok entries) cb u =
     (if \<not> ok then Some (Inr (CLOC_ERROR_IO, u))
      else process_entries pth entries cb u CLOC_SUCCESS)"
| "process_directory pth (Regular f) cb u = Some (Inr (CLOC_ERROR_IO, u))"
| "process_directory pth (Special f) cb u = Some (Inr (CLOC_ERROR_IO, u))"
| "process_directory pth NoStat cb u = Some (Inr (CLOC_ERROR_IO, u))"
| "process_entries pth [] cb u result = Some (Inr (result, u))"
| "process_entries pth ((d_name, node) # rest) cb u result =
     (if hidden d_name then process_entries pth rest cb u result
      else if length pth + length d_name + 2 > CLOC_MAX_PATH
      then process_entries pth rest cb u result
      else
        (case node of
           NoStat \<Rightarrow> process_entries pth rest cb u result
         | Directory ok entries \<Rightarrow>
             (case process_directory (pth @ ''/'' @ d_name) (Directory ok entries) cb u of
                None \<Rightarrow> None
              | Some (Inl e) \<Rightarrow> Some (Inl e)
              | Some (Inr (r, u')) \<Rightarrow>
                  if r \<noteq> CLOC_SUCCESS then Some (Inr (r, u'))
                  else process_entries pth rest cb u' r)
         | Regular f \<Rightarrow>
             (case process_file (pth @ ''/'' @ d_name) f of
                None \<Rightarrow> None
              | Some (Inl e) \<Rightarrow> Some (Inl e)
              | Some (Inr (rc, st)) \<Rightarrow>
                  if rc = CLOC_SUCCESS then
                    (case cb of
                       None \<Rightarrow> process_entries pth rest cb u result
                     | Some callback \<Rightarrow>
                         (case callback st u of
                            None \<Rightarrow> None
                          | Some (Inl e) \<Rightarrow> Some (Inl e)
                          | Some (Inr (c, u')) \<Rightarrow>
                              if c \<noteq> 0 then Some (Inr (CLOC_ERROR_ARG, u'))
                              else process_entries pth rest cb u' result))
                  else process_entries pth rest cb u result)
         | Special f \<Rightarrow> process_entries pth rest cb u result))"

text \<open>\<^verbatim>\<open>lang_stats_t\<close>; a NULL name is \<open>None\<close>.\<close>

record lang_stats =
  name_s :: "string option"
  files :: "32 word"
  lines_code_s :: "64 word"
  lines_comment_s :: "64 word"
  lines_blank_s :: "64 word"
  bytes :: "64 word"

text \<open>
  \<^verbatim>\<open>languages[i].name\<close>: the table has its seven rows and the sentinel row, whose
  name is NULL. The names are distinct literals, so comparing the pointers is
  comparing the names.
\<close>

definition languages_name :: "nat \<Rightarrow> fault + string option" where
  "languages_name i =
     (if i < length languages then Inr (Some (name (languages ! i)))
      else if i = length languages then Inr None
      else Inl TableOutOfBounds)"

text \<open>The search loop of \<^verbatim>\<open>update_stats_callback\<close>: the first index with that name.\<close>

fun find_stats :: "string option \<Rightarrow> lang_stats list \<Rightarrow> nat option" where
  "find_stats n [] = None"
| "find_stats n (x # xs) =
     (if name_s x = n then Some 0
      else (case find_stats n xs of None \<Rightarrow> None | Some i \<Rightarrow> Some (Suc i)))"

definition add_file :: "file_stats \<Rightarrow> lang_stats \<Rightarrow> lang_stats" where
  "add_file fs ls =
     ls\<lparr>files := files ls + 1,
        lines_code_s := lines_code_s ls + ucast (lines_code fs),
        lines_comment_s := lines_comment_s ls + ucast (lines_comment fs),
        lines_blank_s := lines_blank_s ls + ucast (lines_blank fs),
        bytes := bytes ls + size_f fs\<rparr>"

text \<open>
  \<^verbatim>\<open>update_stats_callback\<close> on the used part of \<^verbatim>\<open>global_stats\<close> (its length is
  \<^verbatim>\<open>global_stats_count\<close>; the array comes zeroed from \<^verbatim>\<open>calloc\<close>).
\<close>

definition update_stats_callback :: "lang_stats list callback" where
  "update_stats_callback fs g =
     (case languages_name (unat (language fs)) of
        Inl e \<Rightarrow> Some (Inl e)
      | Inr n \<Rightarrow>
          (case find_stats n g of
             Some i \<Rightarrow> Some (Inr (CLOC_SUCCESS, g[i := add_file fs (g ! i)]))
           | None \<Rightarrow>
               if length g \<ge> CLOC_MAX_LANGUAGES then Some (Inr (CLOC_ERROR_LIMIT, g))
               else Some (Inr (CLOC_SUCCESS,
                      g @ [add_file fs \<lparr>name_s = n, files = 0, lines_code_s = 0,
                                         lines_comment_s = 0, lines_blank_s = 0, bytes = 0\<rparr>]))))"

text \<open>
  The loop of \<^verbatim>\<open>main\<close> over \<^verbatim>\<open>argv[1..]\<close>, each argument with what \<^verbatim>\<open>stat\<close> finds
  there; the state is \<^verbatim>\<open>exit_code\<close> and the global statistics.
\<close>

fun main_loop :: "(string \<times> fs_node) list \<Rightarrow> int \<Rightarrow> lang_stats list \<Rightarrow> (int \<times> lang_stats list) run" where
  "main_loop [] exit_code g = Some (Inr (exit_code, g))"
| "main_loop ((arg, node) # rest) exit_code g =
     (case node of
        NoStat \<Rightarrow> main_loop rest 1 g
      | Directory ok entries \<Rightarrow>
          (case process_directory arg (Directory ok entries) (Some update_stats_callback) g of
             None \<Rightarrow> None
           | Some (Inl e) \<Rightarrow> Some (Inl e)
           | Some (Inr (r, g')) \<Rightarrow>
               main_loop rest (if r \<noteq> CLOC_SUCCESS then 1 else exit_code) g')
      | Regular f \<Rightarrow>
          (case process_file arg f of
             None \<Rightarrow> None
           | Some (Inl e) \<Rightarrow> Some (Inl e)
           | Some (Inr (rc, st)) \<Rightarrow>
               if rc = CLOC_SUCCESS then
                 (case update_stats_callback st g of
                    None \<Rightarrow> None
                  | Some (Inl e) \<Rightarrow> Some (Inl e)
                  | Some (Inr (c, g')) \<Rightarrow> main_loop rest exit_code g')
               else main_loop rest 1 g)
      | Special f \<Rightarrow>
          (case process_file arg f of
             None \<Rightarrow> None
           | Some (Inl e) \<Rightarrow> Some (Inl e)
           | Some (Inr (rc, st)) \<Rightarrow>
               if rc = CLOC_SUCCESS then
                 (case update_stats_callback st g of
                    None \<Rightarrow> None
                  | Some (Inl e) \<Rightarrow> Some (Inl e)
                  | Some (Inr (c, g')) \<Rightarrow> main_loop rest exit_code g')
               else main_loop rest 1 g))"

text \<open>
  \<^verbatim>\<open>main\<close>: the exit status and the statistics it prints. Without arguments, or when
  \<^verbatim>\<open>calloc\<close> fails in \<^verbatim>\<open>cloc_init\<close>, it returns 1 and prints no table.
\<close>

definition main :: "bool \<Rightarrow> (string \<times> fs_node) list \<Rightarrow> (int \<times> lang_stats list) run" where
  "main calloc_ok args =
     (if length args + 1 < 2 then Some (Inr (1, []))
      else if \<not> calloc_ok then Some (Inr (1, []))
      else main_loop args 0 [])"

text \<open>
  The four ways \<^verbatim>\<open>process_file\<close> does not return \<^verbatim>\<open>CLOC_SUCCESS\<close>: no language for
  the path, \<^verbatim>\<open>open\<close> fails, \<^verbatim>\<open>fstat\<close> fails, \<^verbatim>\<open>mmap\<close> of a non-empty file fails.
\<close>

definition file_fails :: "string \<Rightarrow> file_obj \<Rightarrow> bool" where
  "file_fails pth f =
     (detect_language pth f = None \<or> \<not> open_ok f \<or> \<not> fstat_ok f
      \<or> (content f \<noteq> [] \<and> \<not> mmap_ok f))"

text \<open>Two files for the examples: one that reads well, one that \<^verbatim>\<open>open\<close> refuses.\<close>

definition readable :: "string \<Rightarrow> file_obj" where
  "readable cont =
     \<lparr>fopen_ok = True, open_ok = True, fstat_ok = True, mmap_ok = True, malloc_ok = True,
      content = cont\<rparr>"

definition unreadable :: "string \<Rightarrow> file_obj" where
  "unreadable cont = (readable cont)\<lparr>fopen_ok := False, open_ok := False\<rparr>"

section \<open>Reads of markers stay inside the buffer\<close>

lemma memcmp_eq_in_range:
  "0 \<le> i \<Longrightarrow> i + int (length m) \<le> int (length buf) \<Longrightarrow> \<exists>r. memcmp_eq buf i m = Some r"
proof (induction m arbitrary: i)
  case Nil
  show ?case by auto
next
  case (Cons c cs)
  from Cons.prems have "peek buf i = Some (buf ! nat i)" by (simp add: peek_def)
  moreover from Cons.prems have "\<exists>r. memcmp_eq buf (i + 1) cs = Some r"
    by (intro Cons.IH) auto
  ultimately show ?case by auto
qed

lemma memcmp_eq_take_drop:
  "memcmp_eq buf (int k) m = Some r \<Longrightarrow> r = (take (length m) (drop k buf) = m)"
proof (induction m arbitrary: k r)
  case Nil
  then show ?case by auto
next
  case (Cons c cs)
  from Cons.prems obtain r' where
    k: "k < length buf" and r': "memcmp_eq buf (int (Suc k)) cs = Some r'"
    and r: "r = (buf ! k = c \<and> r')"
    by (auto simp: peek_def add.commute split: option.splits if_splits)
  from Cons.IH [OF r'] have "r' = (take (length cs) (drop (Suc k) buf) = cs)" .
  moreover from k have "drop k buf = buf ! k # drop (Suc k) buf"
    by (simp add: Cons_nth_drop_Suc)
  ultimately show ?case using r by auto
qed

lemma marker_at_no_fault: "\<exists>r. marker_at buf k m = Inr r"
proof (cases "k + length m \<le> length buf")
  case True
  then have "\<exists>r. memcmp_eq buf (int k) m = Some r"
    by (intro memcmp_eq_in_range) auto
  with True show ?thesis by (auto simp: marker_at_def)
next
  case False
  then show ?thesis by (auto simp: marker_at_def)
qed

lemma marker_at_True:
  "marker_at buf k m = Inr True \<Longrightarrow> k + length m \<le> length buf \<and> take (length m) (drop k buf) = m"
  by (auto simp: marker_at_def split: if_splits option.splits dest: memcmp_eq_take_drop)

text \<open>The guarded marker test, as it occurs three times in \<^verbatim>\<open>handle_comments\<close>.\<close>

lemma guarded_marker_cases:
  obtains "(if g then marker_at buf k m else Inr False) = Inr False"
  | "g" and "(if g then marker_at buf k m else Inr False) = Inr True" and "k + length m \<le> length buf"
proof (cases g)
  case False
  then show ?thesis using that(1) by simp
next
  case True
  obtain r where r: "marker_at buf k m = Inr r" using marker_at_no_fault by blast
  show ?thesis
  proof (cases r)
    case True
    with r \<open>g\<close> marker_at_True [of buf k m] show ?thesis using that(2) by simp
  next
    case False
    with r \<open>g\<close> show ?thesis using that(1) by simp
  qed
qed

lemma handle_comments_spec:
  assumes "p s < length buf"
  shows "\<exists>s'. handle_comments buf lang s = Inr s' \<and> stats s' = stats s
           \<and> in_string s' = in_string s \<and> string_char s' = string_char s
           \<and> p s \<le> p s' \<and> p s' \<le> length buf
           \<and> (has_code s' \<longrightarrow> has_code s \<or> p s < p s')
           \<and> (block_start lang \<noteq> [] \<and> block_end lang \<noteq> [] \<and> line_comment lang \<noteq> [] \<longrightarrow> p s < p s')"
proof -
  let ?g1 = "\<not> in_line_comment s \<and> \<not> in_block_comment s"
  let ?g3 = "\<not> in_block_comment s \<and> \<not> in_line_comment s"
  show ?thesis
  proof (cases rule: guarded_marker_cases [of ?g1 buf "p s" "block_start lang"])
    case 2
    then show ?thesis by (simp add: handle_comments_def)
  next
    case 1
    note m1 = this
    show ?thesis
    proof (cases rule: guarded_marker_cases [of "in_block_comment s" buf "p s" "block_end lang"])
      case 2
      with m1 show ?thesis by (simp add: handle_comments_def)
    next
      case 1
      note m2 = this
      show ?thesis
      proof (cases rule: guarded_marker_cases [of ?g3 buf "p s" "line_comment lang"])
        case 2
        with m1 m2 show ?thesis by (simp add: handle_comments_def)
      next
        case 1
        with m1 m2 assms show ?thesis by (simp add: handle_comments_def)
      qed
    qed
  qed
qed

lemma handle_strings_spec:
  assumes "in_string s \<longrightarrow> 0 < p s" and "p s < length buf"
  shows "\<exists>s1. handle_strings buf c s = Inr s1 \<and> stats s1 = stats s \<and> p s1 = p s
           \<and> (has_code s1 \<longrightarrow> has_code s \<or> in_string s1)"
proof -
  from assms have "in_string s \<Longrightarrow> peek buf (int (p s) - 1) = Some (buf ! (p s - 1))"
    by (auto simp: peek_def nat_diff_distrib)
  then show ?thesis
    by (auto simp: handle_strings_def)
qed

lemma loop_body_eol:
  assumes "p s < length buf" and "eol_at buf (p s)"
  shows "loop_body buf lang s =
           Inr (s\<lparr>stats := classify_line s, in_line_comment := False,
                  has_code := False, p := p s + 1\<rparr>)"
  using assms by (auto simp: loop_body_def peek_def eol_at_def)

lemma loop_body_spec:
  assumes "p s < length buf" and "in_string s \<longrightarrow> 0 < p s"
  shows "\<exists>s'. loop_body buf lang s = Inr s' \<and> p s \<le> p s' \<and> p s' \<le> length buf
           \<and> (in_string s' \<longrightarrow> 0 < p s')
           \<and> (has_code s' \<longrightarrow> has_code s \<or> p s < p s')
           \<and> (\<not> eol_at buf (p s) \<longrightarrow> stats s' = stats s)
           \<and> (block_start lang \<noteq> [] \<and> block_end lang \<noteq> [] \<and> line_comment lang \<noteq> [] \<longrightarrow> p s < p s')"
proof (cases "eol_at buf (p s)")
  case True
  with assms show ?thesis by (simp add: loop_body_eol)
next
  case False
  with assms(1) have pk: "peek buf (int (p s)) = Some (buf ! p s)"
    and ne: "buf ! p s \<noteq> newline" "int (p s) \<noteq> int (length buf) - 1"
    by (auto simp: peek_def eol_at_def)
  show ?thesis
  proof (cases "isspace (buf ! p s)")
    case True
    with pk ne assms False show ?thesis by (simp add: loop_body_def)
  next
    case sp: False
    obtain s1 where s1: "handle_strings buf (buf ! p s) s = Inr s1"
      "stats s1 = stats s" "p s1 = p s" "has_code s1 \<longrightarrow> has_code s \<or> in_string s1"
      using handle_strings_spec [OF assms(2,1)] by blast
    show ?thesis
    proof (cases "in_string s1")
      case True
      with pk ne sp s1 assms False show ?thesis by (simp add: loop_body_def)
    next
      case ns: False
      from assms(1) s1 have "p s1 < length buf" by simp
      from handle_comments_spec [OF this, of lang] obtain s' where
        "handle_comments buf lang s1 = Inr s'" "stats s' = stats s1"
        "in_string s' = in_string s1" "p s1 \<le> p s'" "p s' \<le> length buf"
        "has_code s' \<longrightarrow> has_code s1 \<or> p s1 < p s'"
        "block_start lang \<noteq> [] \<and> block_end lang \<noteq> [] \<and> line_comment lang \<noteq> [] \<longrightarrow> p s1 < p s'"
        by blast
      with pk ne sp s1 ns False show ?thesis by (auto simp: loop_body_def)
    qed
  qed
qed

section \<open>Rules for the loop\<close>

text \<open>Total correctness of the loop under an invariant whose steps advance the cursor.\<close>

lemma scan_loop_total:
  assumes step: "\<And>s. I s \<Longrightarrow> p s < length buf \<Longrightarrow>
                   \<exists>s'. loop_body buf lang s = Inr s' \<and> I s' \<and> p s < p s'"
    and "I s"
  shows "\<exists>s'. scan_loop buf lang s = Some (Inr s') \<and> I s' \<and> length buf \<le> p s'"
  using \<open>I s\<close>
proof (induction "length buf - p s" arbitrary: s rule: less_induct)
  case less
  show ?case
  proof (cases "p s < length buf")
    case False
    with less.prems show ?thesis by (subst scan_loop.simps) simp
  next
    case True
    from step [OF less.prems True] obtain s1 where
      s1: "loop_body buf lang s = Inr s1" "I s1" "p s < p s1" by blast
    from True s1(3) have "length buf - p s1 < length buf - p s" by arith
    from less.hyps [OF this s1(2)] obtain s' where
      "scan_loop buf lang s1 = Some (Inr s')" "I s'" "length buf \<le> p s'" by blast
    with True s1(1) show ?thesis by (subst scan_loop.simps) simp
  qed
qed

text \<open>Partial correctness: whatever the markers, a run that returns kept the invariant.\<close>

lemma scan_loop_partial:
  assumes step: "\<And>s. I s \<Longrightarrow> p s < length buf \<Longrightarrow> \<exists>s'. loop_body buf lang s = Inr s' \<and> I s'"
    and run: "scan_loop buf lang s = Some r" and "I s"
  shows "\<exists>s'. r = Inr s' \<and> I s' \<and> length buf \<le> p s'"
proof -
  let ?P = "\<lambda>b l s r. b = buf \<longrightarrow> l = lang \<longrightarrow> I s \<longrightarrow>
              (\<exists>s'. r = Inr s' \<and> I s' \<and> length buf \<le> p s')"
  have "?P buf lang s r"
  proof (rule scan_loop.raw_induct [where P = ?P, OF _ run], intro impI)
    fix f b l s r
    assume IH: "\<And>b l s r. f b l s = Some r \<Longrightarrow> ?P b l s r"
      and body: "(if p s < length b
                  then case loop_body b l s of Inl e \<Rightarrow> Some (Inl e) | Inr s' \<Rightarrow> f b l s'
                  else Some (Inr s)) = Some r"
      and eq: "b = buf" "l = lang" and inv: "I s"
    show "\<exists>s'. r = Inr s' \<and> I s' \<and> length buf \<le> p s'"
    proof (cases "p s < length buf")
      case False
      with body eq inv show ?thesis by auto
    next
      case True
      from step [OF inv True] obtain s1 where s1: "loop_body buf lang s = Inr s1" "I s1"
        by blast
      with body True eq have "f buf lang s1 = Some r" by simp
      from IH [OF this] s1(2) show ?thesis by simp
    qed
  qed
  with \<open>I s\<close> show ?thesis by simp
qed

section \<open>Invariants of the scanner\<close>

subsection \<open>The cursor\<close>

lemma cursor_inv_init: "cursor_inv buf (init_scan buf st)"
  by (simp add: cursor_inv_def init_scan_def)

lemma cursor_inv_step:
  assumes "cursor_inv buf s" and "p s < length buf"
  shows "\<exists>s'. loop_body buf lang s = Inr s' \<and> cursor_inv buf s'
           \<and> (nonempty_markers lang \<longrightarrow> p s < p s')"
proof -
  from assms(1) have str: "in_string s \<longrightarrow> 0 < p s" and hc: "has_code s \<longrightarrow> 0 < p s"
    by (simp_all add: cursor_inv_def)
  from loop_body_spec [OF assms(2) str, of lang] obtain s' where
    s': "loop_body buf lang s = Inr s'" "p s \<le> p s'" "p s' \<le> length buf"
    "in_string s' \<longrightarrow> 0 < p s'" "has_code s' \<longrightarrow> has_code s \<or> p s < p s'"
    "nonempty_markers lang \<longrightarrow> p s < p s'"
    by (auto simp: nonempty_markers_def)
  from s'(2,5) hc have "has_code s' \<longrightarrow> 0 < p s'" by auto
  with s' show ?thesis by (simp add: cursor_inv_def)
qed

subsection \<open>The counters\<close>

lemma unat_inc_le: "unat (w + 1 :: 32 word) \<le> unat w + 1"
proof -
  have "unat (w + 1) = (unat w + 1) mod 2 ^ 32" by (simp add: unat_word_ariths)
  then show ?thesis by (simp del: One_nat_def)
qed

lemma total_lines_classify: "total_lines (classify_line s) \<le> total_lines (stats s) + 1"
  using unat_inc_le [of "lines_code (stats s)"] unat_inc_le [of "lines_comment (stats s)"]
    unat_inc_le [of "lines_blank (stats s)"]
  by (simp add: total_lines_def classify_line_def)

lemma num_newlines_take_Suc:
  "k < length buf \<Longrightarrow>
     num_newlines (take (Suc k) buf) = num_newlines (take k buf) + (if buf ! k = newline then 1 else 0)"
  by (simp add: num_newlines_def take_Suc_conv_app_nth)

lemma num_newlines_take_mono:
  "j \<le> k \<Longrightarrow> num_newlines (take j buf) \<le> num_newlines (take k buf)"
proof -
  assume "j \<le> k"
  then have "take k buf = take j buf @ take (k - j) (drop j buf)"
    by (metis le_add_diff_inverse take_add)
  then show ?thesis by (simp add: num_newlines_def)
qed

lemma num_lines_last_byte:
  assumes "k + 1 = length buf" and "buf ! k \<noteq> newline"
  shows "num_lines buf = num_newlines (take k buf) + 1"
proof -
  from assms(1) have ne: "buf \<noteq> []" by auto
  from assms(1) have "length buf - 1 = k" by simp
  with ne have l: "last buf = buf ! k" by (simp add: last_conv_nth)
  from assms(1) have "k < length buf" by simp
  from num_newlines_take_Suc [OF this] assms have "num_newlines buf = num_newlines (take k buf)"
    by simp
  with ne l assms(2) show ?thesis by (simp add: num_lines_def)
qed

lemma count_inv_step:
  assumes inv: "count_inv n0 buf s" and lt: "p s < length buf"
  shows "\<exists>s'. loop_body buf lang s = Inr s' \<and> count_inv n0 buf s'
           \<and> (nonempty_markers lang \<longrightarrow> p s < p s')"
proof -
  from inv lt have cur: "cursor_inv buf s"
    and tot: "total_lines (stats s) \<le> n0 + num_newlines (take (p s) buf)"
    by (auto simp: count_inv_def)
  from cursor_inv_step [OF cur lt, of lang] obtain s' where
    s': "loop_body buf lang s = Inr s'" "cursor_inv buf s'" "nonempty_markers lang \<longrightarrow> p s < p s'"
    by blast
  have "total_lines (stats s') \<le> n0 + num_newlines (take (p s') buf)
        \<or> (p s' = length buf \<and> \<not> has_code s' \<and> total_lines (stats s') \<le> n0 + num_lines buf)"
  proof (cases "eol_at buf (p s)")
    case True
    from loop_body_eol [OF lt True, of lang] s'(1)
    have eq: "s' = s\<lparr>stats := classify_line s, in_line_comment := False,
                      has_code := False, p := p s + 1\<rparr>" by simp
    have t': "total_lines (stats s') \<le> n0 + num_newlines (take (p s) buf) + 1"
      using total_lines_classify [of s] tot eq by simp
    show ?thesis
    proof (cases "buf ! p s = newline")
      case True
      with num_newlines_take_Suc [OF lt] t' eq show ?thesis by simp
    next
      case False
      with True have "p s + 1 = length buf" by (simp add: eol_at_def)
      with num_lines_last_byte [OF this False] t' eq show ?thesis by simp
    qed
  next
    case False
    from cur have "in_string s \<longrightarrow> 0 < p s" by (simp add: cursor_inv_def)
    from loop_body_spec [OF lt this, of lang] False s'(1)
    have "p s \<le> p s'" "stats s' = stats s" by auto
    with num_newlines_take_mono [of "p s" "p s'" buf] tot show ?thesis by simp
  qed
  with s' show ?thesis by (simp add: count_inv_def)
qed

lemma count_inv_init: "count_inv (total_lines st) buf (init_scan buf st)"
  using cursor_inv_init [of buf st]
  by (simp add: count_inv_def init_scan_def total_lines_def)

text \<open>The check after the loop reads the last byte only when there is one.\<close>

lemma last_line_no_fault:
  assumes "cursor_inv buf s" and "length buf \<le> p s"
  shows "last_line buf s =
           Inr (if has_code s \<and> last buf \<noteq> newline
                then (stats s)\<lparr>lines_code := lines_code (stats s) + 1\<rparr> else stats s)"
proof (cases "has_code s")
  case False
  then show ?thesis by (simp add: last_line_def)
next
  case True
  with assms have "0 < length buf" by (auto simp: cursor_inv_def)
  then have ne: "buf \<noteq> []" by auto
  then have "nat (int (length buf) - 1) = length buf - 1" by (simp add: nat_diff_distrib)
  with ne have "peek buf (int (length buf) - 1) = Some (last buf)"
    by (simp add: peek_def last_conv_nth)
  with True show ?thesis by (simp add: last_line_def)
qed

lemma last_line_count_inv:
  assumes "count_inv n0 buf s" and "length buf \<le> p s"
  shows "\<exists>st. last_line buf s = Inr st \<and> total_lines st \<le> n0 + num_lines buf"
proof -
  from assms have cur: "cursor_inv buf s" and pl: "p s = length buf"
    by (auto simp: count_inv_def cursor_inv_def)
  note ll = last_line_no_fault [OF cur assms(2)]
  show ?thesis
  proof (cases "has_code s \<and> last buf \<noteq> newline")
    case False
    with assms pl have "total_lines (stats s) \<le> n0 + num_lines buf"
      by (auto simp: count_inv_def num_lines_def)
    with False ll show ?thesis by auto
  next
    case True
    with assms pl cur have tot: "total_lines (stats s) \<le> n0 + num_newlines buf" and "buf \<noteq> []"
      by (auto simp: count_inv_def cursor_inv_def)
    moreover have "total_lines ((stats s)\<lparr>lines_code := lines_code (stats s) + 1\<rparr>)
                    \<le> total_lines (stats s) + 1"
      using unat_inc_le [of "lines_code (stats s)"] by (simp add: total_lines_def)
    ultimately show ?thesis using True ll by (simp add: num_lines_def)
  qed
qed

section \<open>Runs of the scanner\<close>

lemma scan_loop_returns:
  assumes "nonempty_markers lang"
  shows "\<exists>s'. scan_loop buf lang (init_scan buf st) = Some (Inr s')
           \<and> count_inv (total_lines st) buf s' \<and> length buf \<le> p s'"
proof (rule scan_loop_total [where I = "count_inv (total_lines st) buf"])
  fix s assume "count_inv (total_lines st) buf s" "p s < length buf"
  from count_inv_step [OF this, of lang] assms
  show "\<exists>s'. loop_body buf lang s = Inr s' \<and> count_inv (total_lines st) buf s' \<and> p s < p s'"
    by auto
next
  show "count_inv (total_lines st) buf (init_scan buf st)" by (rule count_inv_init)
qed

lemma scan_loop_returned:
  assumes "scan_loop buf lang (init_scan buf st) = Some r"
  shows "\<exists>s'. r = Inr s' \<and> count_inv (total_lines st) buf s' \<and> length buf \<le> p s'"
proof (rule scan_loop_partial [where I = "count_inv (total_lines st) buf", OF _ assms])
  fix s assume "count_inv (total_lines st) buf s" "p s < length buf"
  from count_inv_step [OF this, of lang]
  show "\<exists>s'. loop_body buf lang s = Inr s' \<and> count_inv (total_lines st) buf s'" by auto
next
  show "count_inv (total_lines st) buf (init_scan buf st)" by (rule count_inv_init)
qed


lemma count_lines_returned:
  assumes "count_lines buf lang st = Some r"
  shows "\<exists>st'. r = Inr st' \<and> total_lines st' \<le> total_lines st + num_lines buf"
proof -
  from assms obtain r0 where r0: "scan_loop buf lang (init_scan buf st) = Some r0"
    by (auto simp: count_lines_def split: option.splits)
  from scan_loop_returned [OF this] obtain s' where
    s': "r0 = Inr s'" "count_inv (total_lines st) buf s'" "length buf \<le> p s'" by blast
  from last_line_count_inv [OF s'(2,3)] obtain st' where
    "last_line buf s' = Inr st'" "total_lines st' \<le> total_lines st + num_lines buf" by blast
  with assms r0 s'(1) show ?thesis by (auto simp: count_lines_def)
qed

lemma count_lines_returns:
  assumes "nonempty_markers lang"
  shows "\<exists>st'. count_lines buf lang st = Some (Inr st')"
proof -
  from scan_loop_returns [OF assms, of buf st] obtain s' where
    s': "scan_loop buf lang (init_scan buf st) = Some (Inr s')"
    "count_inv (total_lines st) buf s'" "length buf \<le> p s'" by blast
  from last_line_count_inv [OF s'(2,3)] s'(1) show ?thesis
    by (auto simp: count_lines_def)
qed

lemma iterate_body_cursor_inv:
  "cursor_inv buf s \<Longrightarrow> \<exists>s'. iterate_body n buf lang s = Inr s' \<and> cursor_inv buf s'"
proof (induction n arbitrary: s)
  case 0
  then show ?case by simp
next
  case (Suc n)
  show ?case
  proof (cases "p s < length buf")
    case False
    with Suc.prems show ?thesis by simp
  next
    case True
    from cursor_inv_step [OF Suc.prems True, of lang] obtain s1 where
      s1: "loop_body buf lang s = Inr s1" "cursor_inv buf s1" by blast
    from Suc.IH [OF s1(2)] True s1(1) show ?thesis by simp
  qed
qed

lemma unat_add_le32: "unat (a + b :: 32 word) \<le> unat a + unat b"
proof -
  have "unat (a + b) = (unat a + unat b) mod 2 ^ 32" by (simp add: unat_word_ariths)
  then show ?thesis by simp
qed

lemma word_sum_le_total:
  "unat (lines_code st + lines_comment st + lines_blank st) \<le> total_lines st"
  using unat_add_le32 [of "lines_code st + lines_comment st" "lines_blank st"]
    unat_add_le32 [of "lines_code st" "lines_comment st"]
  by (simp add: total_lines_def)

text \<open>When the cursor is on the final byte, the loop ends there with \<open>has_code\<close> off.\<close>

lemma scan_loop_final_byte:
  assumes "p s + 1 = length buf"
  shows "scan_loop buf lang s = Some (Inr (end_of_line s))"
proof -
  from assms have lt: "p s < length buf" and eol: "eol_at buf (p s)"
    by (simp_all add: eol_at_def)
  have "loop_body buf lang s = Inr (end_of_line s)"
    unfolding end_of_line_def using lt eol by (rule loop_body_eol)
  moreover have "scan_loop buf lang (end_of_line s) = Some (Inr (end_of_line s))"
    using assms by (subst scan_loop.simps) (simp add: end_of_line_def)
  ultimately show ?thesis using lt by (subst scan_loop.simps) simp
qed

lemmas scanner_defs =
  count_lines_def init_scan_def loop_body_def handle_strings_def handle_comments_def
  marker_at_def peek_def classify_line_def last_line_def init_file_stats_def
  newline_def isspace_def dquote_def squote_def backslash_def

text \<open>The C syntax of the examples is the first row of the table.\<close>

lemma lang_C_in_table: "languages ! 0 = lang_C"
  by (simp add: languages_def lang_C_def)

lemmas C_defs = lang_C_def c_like_def

subsection \<open>Steps inside and into a string, the untouched fields, and faults\<close>

text \<open>A step taken inside a string.\<close>

lemma loop_body_in_string:
  assumes "in_string s" and "p s < length buf" and "loop_body buf lang s = Inr s'"
  shows "(\<not> in_string s') =
           (buf ! p s = string_char s \<and> 0 < p s \<and> buf ! (p s - 1) \<noteq> backslash
            \<and> \<not> eol_at buf (p s) \<and> \<not> isspace (buf ! p s)
            \<and> \<not> in_line_comment s \<and> \<not> in_block_comment s)"
    and "in_string s' \<Longrightarrow>
           p s' = p s + 1 \<and> in_block_comment s' = in_block_comment s
           \<and> (in_line_comment s' \<longrightarrow> in_line_comment s) \<and> string_char s' = string_char s"
proof -
  let ?c = "buf ! p s"
  let ?stop = "?c = string_char s \<and> 0 < p s \<and> buf ! (p s - 1) \<noteq> backslash
            \<and> \<not> eol_at buf (p s) \<and> \<not> isspace ?c
            \<and> \<not> in_line_comment s \<and> \<not> in_block_comment s"
  have both: "(\<not> in_string s') = ?stop \<and>
        (in_string s' \<longrightarrow> p s' = p s + 1 \<and> in_block_comment s' = in_block_comment s
           \<and> (in_line_comment s' \<longrightarrow> in_line_comment s) \<and> string_char s' = string_char s)"
  proof (cases "eol_at buf (p s)")
    case True
    from loop_body_eol [OF assms(2) True, of lang] assms(1,3) True show ?thesis by auto
  next
    case eol: False
    with assms(2) have pk: "peek buf (int (p s)) = Some ?c"
      and ne: "?c \<noteq> newline" "int (p s) \<noteq> int (length buf) - 1"
      by (auto simp: peek_def eol_at_def)
    show ?thesis
    proof (cases "isspace ?c")
      case True
      with pk ne assms(1,3) show ?thesis by (auto simp: loop_body_def)
    next
      case sp: False
      with pk ne assms(3) obtain s1 where
        s1: "handle_strings buf ?c s = Inr s1"
        and s': "(if in_string s1 then Inr (s1\<lparr>p := p s1 + 1\<rparr>) else handle_comments buf lang s1) = Inr s'"
        by (auto simp: loop_body_def split: sum.splits)
      show ?thesis
      proof (cases "?c = string_char s \<and> \<not> in_line_comment s \<and> \<not> in_block_comment s")
        case False
        with assms(1) s1 have "s1 = s" by (auto simp: handle_strings_def split: if_splits)
        with s' assms(1) False show ?thesis by auto
      next
        case True
        with assms(1) s1 have pos: "0 < p s"
          by (auto simp: handle_strings_def peek_def split: option.splits if_splits)
        then have "peek buf (int (p s) - 1) = Some (buf ! (p s - 1))"
          using assms(2) by (auto simp: peek_def nat_diff_distrib)
        with True assms(1) s1
        have s1_eq: "s1 = (if buf ! (p s - 1) \<noteq> backslash then s\<lparr>in_string := False\<rparr> else s)"
          by (auto simp: handle_strings_def)
        show ?thesis
        proof (cases "buf ! (p s - 1) = backslash")
          case True
          with s1_eq s' assms(1) show ?thesis by auto
        next
          case False
          with s1_eq have ns: "\<not> in_string s1" and "p s1 < length buf" using assms(2) by auto
          from handle_comments_spec [OF this(2), of lang] s' ns have "\<not> in_string s'" by auto
          with False True pos eol sp show ?thesis by simp
        qed
      qed
    qed
  qed
  from both show "(\<not> in_string s') = ?stop" by blast
  from both show "in_string s' \<Longrightarrow>
           p s' = p s + 1 \<and> in_block_comment s' = in_block_comment s
           \<and> (in_line_comment s' \<longrightarrow> in_line_comment s) \<and> string_char s' = string_char s" by blast
qed


lemma frame_inv_step:
  assumes "cursor_inv buf s" and "frame_inv st buf s" and "p s < length buf"
  shows "\<exists>s'. loop_body buf lang s = Inr s' \<and> cursor_inv buf s' \<and> frame_inv st buf s'
           \<and> (nonempty_markers lang \<longrightarrow> p s < p s')"
proof -
  from cursor_inv_step [OF assms(1,3), of lang] obtain s' where
    s': "loop_body buf lang s = Inr s'" "cursor_inv buf s'" "nonempty_markers lang \<longrightarrow> p s < p s'"
    by blast
  have "frame_inv st buf s'"
  proof (cases "eol_at buf (p s)")
    case True
    from loop_body_eol [OF assms(3) True, of lang] s'(1) assms(2) show ?thesis
      by (auto simp: frame_inv_def classify_line_def)
  next
    case False
    from assms(1) have "in_string s \<longrightarrow> 0 < p s" by (simp add: cursor_inv_def)
    from loop_body_spec [OF assms(3) this, of lang] False s'(1) assms(2) show ?thesis
      by (auto simp: frame_inv_def)
  qed
  with s' show ?thesis by simp
qed

lemma count_lines_frame:
  assumes "nonempty_markers lang"
  shows "\<exists>st'. count_lines buf lang st = Some (Inr st') \<and> size_f st' = of_nat (length buf)
           \<and> path st' = path st \<and> language st' = language st \<and> error st' = error st"
proof -
  let ?I = "\<lambda>s. cursor_inv buf s \<and> frame_inv st buf s"
  have "\<exists>s'. scan_loop buf lang (init_scan buf st) = Some (Inr s') \<and> ?I s' \<and> length buf \<le> p s'"
  proof (rule scan_loop_total [where I = ?I])
    fix s assume "?I s" "p s < length buf"
    with frame_inv_step [of buf s st lang] assms
    show "\<exists>s'. loop_body buf lang s = Inr s' \<and> ?I s' \<and> p s < p s'" by auto
  next
    show "?I (init_scan buf st)" using cursor_inv_init [of buf st]
      by (simp add: frame_inv_def init_scan_def)
  qed
  then obtain s' where s': "scan_loop buf lang (init_scan buf st) = Some (Inr s')"
    "cursor_inv buf s'" "frame_inv st buf s'" "length buf \<le> p s'" by blast
  from last_line_no_fault [OF s'(2,4)] s'(1,3) show ?thesis
    by (auto simp: count_lines_def frame_inv_def)
qed

lemma count_lines_no_fault: "count_lines buf lang st \<noteq> Some (Inl e)"
  using count_lines_returned [of buf lang st "Inl e"] by auto

lemma iterate_body_no_fault: "iterate_body n buf lang (init_scan buf st) \<noteq> Inl e"
  using iterate_body_cursor_inv [OF cursor_inv_init [of buf st], where n = n and lang = lang]
  by auto

text \<open>A step that opens a string consumes a quote byte.\<close>

lemma loop_body_enters_string:
  assumes "\<not> in_string s" and "p s < length buf" and "loop_body buf lang s = Inr s'"
    and "in_string s'"
  shows "p s' = p s + 1 \<and> (buf ! p s = dquote \<or> buf ! p s = squote) \<and> string_char s' = buf ! p s"
proof (cases "eol_at buf (p s)")
  case True
  from loop_body_eol [OF assms(2) True, of lang] assms(1,3,4) show ?thesis by auto
next
  case eol: False
  let ?c = "buf ! p s"
  from eol assms(2) have pk: "peek buf (int (p s)) = Some ?c"
    and ne: "?c \<noteq> newline" "int (p s) \<noteq> int (length buf) - 1"
    by (auto simp: peek_def eol_at_def)
  show ?thesis
  proof (cases "isspace ?c")
    case True
    with pk ne assms(1,3,4) show ?thesis by (auto simp: loop_body_def)
  next
    case sp: False
    with pk ne assms(3) obtain s1 where
      s1: "handle_strings buf ?c s = Inr s1"
      and s': "(if in_string s1 then Inr (s1\<lparr>p := p s1 + 1\<rparr>) else handle_comments buf lang s1) = Inr s'"
      by (auto simp: loop_body_def split: sum.splits)
    from s1 assms(1) have p1: "p s1 = p s" by (auto simp: handle_strings_def split: if_splits)
    show ?thesis
    proof (cases "in_string s1")
      case True
      with s1 assms(1) s' show ?thesis by (auto simp: handle_strings_def split: if_splits)
    next
      case False
      from p1 assms(2) have "p s1 < length buf" by simp
      from handle_comments_spec [OF this, of lang] s' False assms(4) show ?thesis by auto
    qed
  qed
qed

text \<open>A comment state changes only where the marker test succeeded.\<close>

lemma handle_comments_flags:
  assumes "handle_comments buf lang s = Inr s'"
  shows "(in_block_comment s' \<and> \<not> in_block_comment s \<longrightarrow>
            marker_at buf (p s) (block_start lang) = Inr True
            \<and> p s' = p s + length (block_start lang))
         \<and> (\<not> in_block_comment s' \<and> in_block_comment s \<longrightarrow>
            marker_at buf (p s) (block_end lang) = Inr True
            \<and> p s' = p s + length (block_end lang))
         \<and> (in_line_comment s' \<and> \<not> in_line_comment s \<longrightarrow>
            marker_at buf (p s) (line_comment lang) = Inr True
            \<and> p s' = p s + length (line_comment lang))"
proof -
  let ?g1 = "\<not> in_line_comment s \<and> \<not> in_block_comment s"
  let ?g3 = "\<not> in_block_comment s \<and> \<not> in_line_comment s"
  show ?thesis
  proof (cases rule: guarded_marker_cases [of ?g1 buf "p s" "block_start lang"])
    case 2
    with assms show ?thesis by (auto simp: handle_comments_def)
  next
    case 1
    note m1 = this
    show ?thesis
    proof (cases rule: guarded_marker_cases [of "in_block_comment s" buf "p s" "block_end lang"])
      case 2
      with m1 assms show ?thesis by (auto simp: handle_comments_def)
    next
      case 1
      note m2 = this
      show ?thesis
      proof (cases rule: guarded_marker_cases [of ?g3 buf "p s" "line_comment lang"])
        case 2
        with m1 m2 assms show ?thesis by (auto simp: handle_comments_def)
      next
        case 1
        with m1 m2 assms show ?thesis by (auto simp: handle_comments_def split: if_splits)
      qed
    qed
  qed
qed

lemma loop_body_flags:
  assumes "p s < length buf" and "loop_body buf lang s = Inr s'"
  shows "(in_block_comment s' \<and> \<not> in_block_comment s \<longrightarrow>
            marker_at buf (p s) (block_start lang) = Inr True
            \<and> p s' = p s + length (block_start lang))
         \<and> (\<not> in_block_comment s' \<and> in_block_comment s \<longrightarrow>
            marker_at buf (p s) (block_end lang) = Inr True
            \<and> p s' = p s + length (block_end lang))
         \<and> (in_line_comment s' \<and> \<not> in_line_comment s \<longrightarrow>
            marker_at buf (p s) (line_comment lang) = Inr True
            \<and> p s' = p s + length (line_comment lang))"
proof (cases "eol_at buf (p s)")
  case True
  from loop_body_eol [OF assms(1) True, of lang] assms(2) show ?thesis by auto
next
  case eol: False
  let ?c = "buf ! p s"
  from eol assms(1) have pk: "peek buf (int (p s)) = Some ?c"
    and ne: "?c \<noteq> newline" "int (p s) \<noteq> int (length buf) - 1"
    by (auto simp: peek_def eol_at_def)
  show ?thesis
  proof (cases "isspace ?c")
    case True
    with pk ne assms(2) show ?thesis by (auto simp: loop_body_def)
  next
    case sp: False
    with pk ne assms(2) obtain s1 where
      s1: "handle_strings buf ?c s = Inr s1"
      and s': "(if in_string s1 then Inr (s1\<lparr>p := p s1 + 1\<rparr>) else handle_comments buf lang s1) = Inr s'"
      by (auto simp: loop_body_def split: sum.splits)
    from s1 have same: "p s1 = p s" "in_block_comment s1 = in_block_comment s"
      "in_line_comment s1 = in_line_comment s"
      by (auto simp: handle_strings_def split: if_splits option.splits)
    show ?thesis
    proof (cases "in_string s1")
      case True
      with s' same show ?thesis by auto
    next
      case False
      with s' have "handle_comments buf lang s1 = Inr s'" by simp
      from handle_comments_flags [OF this] same show ?thesis by simp
    qed
  qed
qed

section \<open>Properties of \<^verbatim>\<open>count_lines\<close>\<close>

text \<open>
  C1. The claim: for every buffer and every syntax with non-empty markers, code + comment
  + blank is the number of lines of the buffer (its newlines, and one more when the
  buffer is not empty and does not end in a newline). The scanner breaks it: when a
  marker ends exactly at the end of the buffer, the cursor jumps over the final byte,
  the end-of-line branch never runs for the final line, and the check after the loop
  (``Handle last line if it doesn't end with newline'') counts that line only when
  \<open>has_code\<close> is set. The two-byte C file \<^verbatim>\<open>//\<close> has one line and gets no count at all.
\<close>

theorem final_comment_line_uncounted:
  "count_lines ''//'' lang_C init_file_stats = Some (Inr (init_file_stats\<lparr>size_f := 2\<rparr>))
   \<and> total_lines (init_file_stats\<lparr>size_f := 2\<rparr>) = 0
   \<and> num_lines ''//'' = 1"
  by (simp add: scanner_defs C_defs scan_loop.simps num_lines_def num_newlines_def
      total_lines_def)

text \<open>
  C2. With the C syntax, the 25 bytes \<^verbatim>\<open>/* start\nmid\nend */ x();\n\<close> give two comment
  lines, one code line and no blank line. The states on the way show which lines they
  are: after the first newline one comment line is counted, after the second two;
  past the end marker of the third line the block comment is closed and \<open>has_code\<close> is
  off; it is on when the cursor reaches the last newline, after \<^verbatim>\<open>x();\<close>, and that
  line is counted as code.
\<close>

theorem block_comment_then_code:
  "length block_example = 25
   \<and> count_lines block_example lang_C init_file_stats
       = Some (Inr (init_file_stats\<lparr>size_f := 25, lines_code := 1, lines_comment := 2,
                                     lines_blank := 0\<rparr>))
   \<and> (case iterate_body 8 block_example lang_C (init_scan block_example init_file_stats) of
         Inl e \<Rightarrow> False
       | Inr s \<Rightarrow> p s = 9 \<and> in_block_comment s \<and> lines_comment (stats s) = 1
                  \<and> lines_code (stats s) = 0 \<and> lines_blank (stats s) = 0)
   \<and> (case iterate_body 12 block_example lang_C (init_scan block_example init_file_stats) of
         Inl e \<Rightarrow> False
       | Inr s \<Rightarrow> p s = 13 \<and> in_block_comment s \<and> lines_comment (stats s) = 2
                  \<and> lines_code (stats s) = 0 \<and> lines_blank (stats s) = 0)
   \<and> (case iterate_body 17 block_example lang_C (init_scan block_example init_file_stats) of
         Inl e \<Rightarrow> False
       | Inr s \<Rightarrow> p s = 19 \<and> \<not> in_block_comment s \<and> \<not> has_code s)
   \<and> (case iterate_body 22 block_example lang_C (init_scan block_example init_file_stats) of
         Inl e \<Rightarrow> False
       | Inr s \<Rightarrow> p s = 24 \<and> \<not> in_block_comment s \<and> \<not> in_line_comment s \<and> has_code s
                  \<and> lines_comment (stats s) = 2)
   \<and> (case iterate_body 23 block_example lang_C (init_scan block_example init_file_stats) of
         Inl e \<Rightarrow> False
       | Inr s \<Rightarrow> p s = 25 \<and> lines_code (stats s) = 1 \<and> lines_comment (stats s) = 2
                  \<and> lines_blank (stats s) = 0)"
  by (simp add: block_example_def scanner_defs C_defs scan_loop.simps numeral_eq_Suc)

text \<open>
  C8. The scanner never counts more lines than the buffer has: for every buffer and
  syntax, a run that returns has added at most \<open>num_lines buf\<close> to the counters (and it
  does return when the markers are not empty); the wrapped sum of the three counters
  is bounded as well. When the end-of-line branch classifies the final line, the loop
  ends with \<open>has_code\<close> off and the check after the loop adds nothing.
\<close>

theorem never_over_counts:
  "(nonempty_markers lang \<longrightarrow> (\<exists>st'. count_lines buf lang st = Some (Inr st')))
   \<and> (\<forall>r. count_lines buf lang st = Some r \<longrightarrow>
         (\<exists>st'. r = Inr st' \<and> total_lines st' \<le> total_lines st + num_lines buf
            \<and> unat (lines_code st' + lines_comment st' + lines_blank st')
                 \<le> total_lines st + num_lines buf))
   \<and> (\<forall>s. p s + 1 = length buf \<longrightarrow>
         scan_loop buf lang s = Some (Inr (end_of_line s)) \<and> \<not> has_code (end_of_line s)
         \<and> last_line buf (end_of_line s) = Inr (classify_line s))"
proof (intro conjI impI allI)
  assume "nonempty_markers lang"
  then show "\<exists>st'. count_lines buf lang st = Some (Inr st')" by (rule count_lines_returns)
next
  fix r assume "count_lines buf lang st = Some r"
  from count_lines_returned [OF this] obtain st' where
    st': "r = Inr st'" "total_lines st' \<le> total_lines st + num_lines buf" by blast
  with word_sum_le_total [of st']
  show "\<exists>st'. r = Inr st' \<and> total_lines st' \<le> total_lines st + num_lines buf
            \<and> unat (lines_code st' + lines_comment st' + lines_blank st')
                 \<le> total_lines st + num_lines buf" by auto
next
  fix s :: scan_state assume "p s + 1 = length buf"
  then show "scan_loop buf lang s = Some (Inr (end_of_line s))" by (rule scan_loop_final_byte)
next
  fix s show "\<not> has_code (end_of_line s)" by (simp add: end_of_line_def)
next
  fix s show "last_line buf (end_of_line s) = Inr (classify_line s)"
    by (simp add: end_of_line_def last_line_def)
qed

theorem never_over_counts_witness:
  "nonempty_markers lang_C
   \<and> count_lines ''x//'' lang_C init_file_stats
       = Some (Inr (init_file_stats\<lparr>size_f := 3, lines_code := 1\<rparr>))
   \<and> total_lines (init_file_stats\<lparr>size_f := 3, lines_code := 1\<rparr>)
       \<le> total_lines init_file_stats + num_lines ''x//''
   \<and> p (init_scan ''x'' init_file_stats) + 1 = length ''x''
   \<and> scan_loop ''x'' lang_C (init_scan ''x'' init_file_stats)
       = Some (Inr (end_of_line (init_scan ''x'' init_file_stats)))"
  using never_over_counts [of lang_C "''x//''" init_file_stats]
    never_over_counts [of lang_C "''x''" init_file_stats]
  by (simp add: scanner_defs C_defs scan_loop.simps nonempty_markers_def total_lines_def
      num_lines_def num_newlines_def end_of_line_def)

text \<open>
  C4. Inside a string, a step ends the string exactly when the byte under the cursor is
  the remembered quote and the one byte before it is not a backslash (and the step is
  not the end-of-line branch or the whitespace skip, and no comment flag is set). Only
  that one byte is looked at: after a backslash the string stays open, whatever
  precedes the backslash. In \<^verbatim>\<open>"a\"b"\<close> the string is still open after the escaped
  quote and closes at the last quote; in \<^verbatim>\<open>"\\" // c\<close> the quote after the escaped
  backslash does not close the string, so the comment is swallowed and the line is
  code, where \<^verbatim>\<open>"ab" // c\<close> is a comment line.
\<close>

theorem string_end_single_lookback:
  "(\<forall>s s'. in_string s \<and> p s < length buf \<and> loop_body buf lang s = Inr s' \<longrightarrow>
       (\<not> in_string s') =
         (buf ! p s = string_char s \<and> 0 < p s \<and> buf ! (p s - 1) \<noteq> backslash
          \<and> \<not> eol_at buf (p s) \<and> \<not> isspace (buf ! p s)
          \<and> \<not> in_line_comment s \<and> \<not> in_block_comment s))
   \<and> (\<forall>s s'. in_string s \<and> p s < length buf \<and> loop_body buf lang s = Inr s'
          \<and> buf ! (p s - 1) = backslash \<longrightarrow> in_string s')
   \<and> (case iterate_body 4 [dquote, CHR ''a'', backslash, dquote, CHR ''b'', dquote, newline]
              lang_C (init_scan [dquote, CHR ''a'', backslash, dquote, CHR ''b'', dquote, newline] st) of
         Inl e \<Rightarrow> False
       | Inr s \<Rightarrow> p s = 4 \<and> in_string s \<and> string_char s = dquote)
   \<and> (case iterate_body 6 [dquote, CHR ''a'', backslash, dquote, CHR ''b'', dquote, newline]
              lang_C (init_scan [dquote, CHR ''a'', backslash, dquote, CHR ''b'', dquote, newline] st) of
         Inl e \<Rightarrow> False
       | Inr s \<Rightarrow> p s = 6 \<and> \<not> in_string s)
   \<and> (case iterate_body 4 ([dquote, backslash, backslash, dquote] @ '' // c'' @ [newline])
              lang_C (init_scan ([dquote, backslash, backslash, dquote] @ '' // c'' @ [newline]) st) of
         Inl e \<Rightarrow> False
       | Inr s \<Rightarrow> p s = 4 \<and> in_string s)
   \<and> count_lines ([dquote, backslash, backslash, dquote] @ '' // c'' @ [newline]) lang_C init_file_stats
       = Some (Inr (init_file_stats\<lparr>size_f := 10, lines_code := 1, lines_comment := 0\<rparr>))
   \<and> count_lines ([dquote, CHR ''a'', CHR ''b'', dquote] @ '' // c'' @ [newline]) lang_C init_file_stats
       = Some (Inr (init_file_stats\<lparr>size_f := 10, lines_code := 0, lines_comment := 1\<rparr>))"
proof (intro conjI allI impI)
  fix s s' :: scan_state
  assume "in_string s \<and> p s < length buf \<and> loop_body buf lang s = Inr s'"
  then have "in_string s" "p s < length buf" "loop_body buf lang s = Inr s'" by simp_all
  then show "(\<not> in_string s') =
         (buf ! p s = string_char s \<and> 0 < p s \<and> buf ! (p s - 1) \<noteq> backslash
          \<and> \<not> eol_at buf (p s) \<and> \<not> isspace (buf ! p s)
          \<and> \<not> in_line_comment s \<and> \<not> in_block_comment s)"
    by (rule loop_body_in_string(1))
next
  fix s s' :: scan_state
  assume a: "in_string s \<and> p s < length buf \<and> loop_body buf lang s = Inr s'
          \<and> buf ! (p s - 1) = backslash"
  then have "in_string s" "p s < length buf" "loop_body buf lang s = Inr s'" by simp_all
  from loop_body_in_string(1) [OF this] a show "in_string s'" by auto
qed (simp_all add: scanner_defs C_defs scan_loop.simps numeral_eq_Suc)

theorem string_end_single_lookback_witness:
  "in_string ((init_scan [dquote, backslash, dquote, dquote, newline] init_file_stats)
               \<lparr>p := 2, in_string := True, string_char := dquote, has_code := True\<rparr>)
   \<and> loop_body [dquote, backslash, dquote, dquote, newline] lang_C
        ((init_scan [dquote, backslash, dquote, dquote, newline] init_file_stats)
               \<lparr>p := 2, in_string := True, string_char := dquote, has_code := True\<rparr>)
      = Inr ((init_scan [dquote, backslash, dquote, dquote, newline] init_file_stats)
               \<lparr>p := 3, in_string := True, string_char := dquote, has_code := True\<rparr>)
   \<and> [dquote, backslash, dquote, dquote, newline] ! (2 - 1) = backslash
   \<and> loop_body [dquote, backslash, dquote, dquote, newline] lang_C
        ((init_scan [dquote, backslash, dquote, dquote, newline] init_file_stats)
               \<lparr>p := 3, in_string := True, string_char := dquote, has_code := True\<rparr>)
      = Inr ((init_scan [dquote, backslash, dquote, dquote, newline] init_file_stats)
               \<lparr>p := 4, in_string := False, string_char := dquote, has_code := True\<rparr>)"
  using string_end_single_lookback [of "[dquote, backslash, dquote, dquote, newline]" lang_C init_file_stats]
  by (simp add: scanner_defs C_defs)

text \<open>
  C5. With the C syntax the line \<^verbatim>\<open>"// not a comment"\<close>, ended by a newline, is a code
  line and not a comment line. In general a step that starts and ends inside a string
  moves the cursor by one byte and enters no comment: markers are not looked for.
\<close>

theorem comment_marker_inside_string:
  "count_lines ([dquote] @ ''// not a comment'' @ [dquote, newline]) lang_C init_file_stats
     = Some (Inr (init_file_stats\<lparr>size_f := 19, lines_code := 1, lines_comment := 0\<rparr>))
   \<and> (\<forall>s s'. in_string s \<and> p s < length buf \<and> loop_body buf lang s = Inr s' \<and> in_string s' \<longrightarrow>
         p s' = p s + 1 \<and> in_block_comment s' = in_block_comment s
         \<and> (in_line_comment s' \<longrightarrow> in_line_comment s))"
proof (intro conjI allI impI)
  show "count_lines ([dquote] @ ''// not a comment'' @ [dquote, newline]) lang_C init_file_stats
     = Some (Inr (init_file_stats\<lparr>size_f := 19, lines_code := 1, lines_comment := 0\<rparr>))"
    by (simp add: scanner_defs C_defs scan_loop.simps)
next
  fix s s' :: scan_state
  assume a: "in_string s \<and> p s < length buf \<and> loop_body buf lang s = Inr s' \<and> in_string s'"
  then have "in_string s" "p s < length buf" "loop_body buf lang s = Inr s'" "in_string s'"
    by simp_all
  from loop_body_in_string(2) [OF this]
  show "p s' = p s + 1" "in_block_comment s' = in_block_comment s" by simp_all
  assume "in_line_comment s'"
  with loop_body_in_string(2) [OF \<open>in_string s\<close> \<open>p s < length buf\<close> \<open>loop_body buf lang s = Inr s'\<close> \<open>in_string s'\<close>]
  show "in_line_comment s" by simp
qed

theorem comment_marker_inside_string_witness:
  "in_string ((init_scan ([dquote] @ ''//'' @ [dquote, newline]) init_file_stats)
               \<lparr>p := 1, in_string := True, string_char := dquote, has_code := True\<rparr>)
   \<and> loop_body ([dquote] @ ''//'' @ [dquote, newline]) lang_C
        ((init_scan ([dquote] @ ''//'' @ [dquote, newline]) init_file_stats)
               \<lparr>p := 1, in_string := True, string_char := dquote, has_code := True\<rparr>)
      = Inr ((init_scan ([dquote] @ ''//'' @ [dquote, newline]) init_file_stats)
               \<lparr>p := 2, in_string := True, string_char := dquote, has_code := True\<rparr>)"
  using comment_marker_inside_string [of "[dquote] @ ''//'' @ [dquote, newline]" lang_C]
  by (simp add: scanner_defs C_defs)

text \<open>
  C6. For every buffer, whatever its bytes, and every syntax whose three markers are
  not empty, \<^verbatim>\<open>count_lines\<close> returns, without fault, statistics whose size is the length
  of the buffer and whose path, language and error are those it was given; and every
  iteration of the loop moves the cursor forward.
\<close>

theorem count_lines_always_succeeds:
  "nonempty_markers lang \<Longrightarrow>
     (\<exists>st'. count_lines buf lang st = Some (Inr st') \<and> size_f st' = of_nat (length buf)
         \<and> path st' = path st \<and> language st' = language st \<and> error st' = error st)
     \<and> (\<forall>s. cursor_inv buf s \<and> p s < length buf \<longrightarrow>
           (\<exists>s'. loop_body buf lang s = Inr s' \<and> p s < p s' \<and> cursor_inv buf s'))"
proof (intro conjI allI impI)
  assume "nonempty_markers lang"
  then show "\<exists>st'. count_lines buf lang st = Some (Inr st') \<and> size_f st' = of_nat (length buf)
         \<and> path st' = path st \<and> language st' = language st \<and> error st' = error st"
    by (rule count_lines_frame)
next
  fix s assume ne: "nonempty_markers lang" and "cursor_inv buf s \<and> p s < length buf"
  then have "cursor_inv buf s" "p s < length buf" by simp_all
  from cursor_inv_step [OF this, of lang] ne
  show "\<exists>s'. loop_body buf lang s = Inr s' \<and> p s < p s' \<and> cursor_inv buf s'" by auto
qed

theorem count_lines_always_succeeds_witness:
  "nonempty_markers lang_C
   \<and> count_lines [CHR 0x00, CHR ''x'', newline] lang_C init_file_stats
       = Some (Inr (init_file_stats\<lparr>size_f := 3, lines_code := 1\<rparr>))
   \<and> cursor_inv [CHR 0x00, CHR ''x'', newline] (init_scan [CHR 0x00, CHR ''x'', newline] init_file_stats)
   \<and> p (init_scan [CHR 0x00, CHR ''x'', newline] init_file_stats) < length [CHR 0x00, CHR ''x'', newline]
   \<and> (\<exists>s'. loop_body [CHR 0x00, CHR ''x'', newline] lang_C
               (init_scan [CHR 0x00, CHR ''x'', newline] init_file_stats) = Inr s'
           \<and> p (init_scan [CHR 0x00, CHR ''x'', newline] init_file_stats) < p s')"
  using count_lines_always_succeeds [of lang_C "[CHR 0x00, CHR ''x'', newline]" init_file_stats]
  by (simp add: scanner_defs C_defs scan_loop.simps nonempty_markers_def cursor_inv_def)

text \<open>
  C7. The marker test never reads outside the buffer and succeeds only when the whole
  marker lies inside it, where it equals the bytes at the cursor; a marker that would
  pass the end of the buffer does not match. No run of the scanner, complete or not,
  has a marker read out of bounds, and a step of the loop sets or clears a comment
  flag by a marker only where that marker lies inside the buffer.
\<close>

theorem marker_match_within_buffer:
  "(\<exists>r. marker_at buf k m = Inr r)
   \<and> (marker_at buf k m = Inr True \<longrightarrow>
        k + length m \<le> length buf \<and> take (length m) (drop k buf) = m)
   \<and> (length buf < k + length m \<longrightarrow> marker_at buf k m = Inr False)
   \<and> (\<forall>n. iterate_body n buf lang (init_scan buf st) \<noteq> Inl MarkerOutOfBounds)
   \<and> count_lines buf lang st \<noteq> Some (Inl MarkerOutOfBounds)
   \<and> (\<forall>s s'. p s < length buf \<and> loop_body buf lang s = Inr s' \<longrightarrow>
         (in_block_comment s' \<and> \<not> in_block_comment s \<longrightarrow>
            p s + length (block_start lang) \<le> length buf
            \<and> take (length (block_start lang)) (drop (p s) buf) = block_start lang
            \<and> p s' = p s + length (block_start lang))
         \<and> (\<not> in_block_comment s' \<and> in_block_comment s \<longrightarrow>
            p s + length (block_end lang) \<le> length buf
            \<and> take (length (block_end lang)) (drop (p s) buf) = block_end lang
            \<and> p s' = p s + length (block_end lang))
         \<and> (in_line_comment s' \<and> \<not> in_line_comment s \<longrightarrow>
            p s + length (line_comment lang) \<le> length buf
            \<and> take (length (line_comment lang)) (drop (p s) buf) = line_comment lang
            \<and> p s' = p s + length (line_comment lang)))"
proof (intro conjI allI)
  show "\<exists>r. marker_at buf k m = Inr r" by (rule marker_at_no_fault)
next
  show "marker_at buf k m = Inr True \<longrightarrow>
        k + length m \<le> length buf \<and> take (length m) (drop k buf) = m"
    using marker_at_True [of buf k m] by simp
next
  show "length buf < k + length m \<longrightarrow> marker_at buf k m = Inr False"
    by (simp add: marker_at_def)
next
  fix n show "iterate_body n buf lang (init_scan buf st) \<noteq> Inl MarkerOutOfBounds"
    by (rule iterate_body_no_fault)
next
  show "count_lines buf lang st \<noteq> Some (Inl MarkerOutOfBounds)"
    by (rule count_lines_no_fault)
next
  fix s s' :: scan_state
  show "p s < length buf \<and> loop_body buf lang s = Inr s' \<longrightarrow>
         (in_block_comment s' \<and> \<not> in_block_comment s \<longrightarrow>
            p s + length (block_start lang) \<le> length buf
            \<and> take (length (block_start lang)) (drop (p s) buf) = block_start lang
            \<and> p s' = p s + length (block_start lang))
         \<and> (\<not> in_block_comment s' \<and> in_block_comment s \<longrightarrow>
            p s + length (block_end lang) \<le> length buf
            \<and> take (length (block_end lang)) (drop (p s) buf) = block_end lang
            \<and> p s' = p s + length (block_end lang))
         \<and> (in_line_comment s' \<and> \<not> in_line_comment s \<longrightarrow>
            p s + length (line_comment lang) \<le> length buf
            \<and> take (length (line_comment lang)) (drop (p s) buf) = line_comment lang
            \<and> p s' = p s + length (line_comment lang))"
  proof
    assume "p s < length buf \<and> loop_body buf lang s = Inr s'"
    then have "p s < length buf" "loop_body buf lang s = Inr s'" by simp_all
    from loop_body_flags [OF this]
      marker_at_True [of buf "p s" "block_start lang"]
      marker_at_True [of buf "p s" "block_end lang"]
      marker_at_True [of buf "p s" "line_comment lang"]
    show "(in_block_comment s' \<and> \<not> in_block_comment s \<longrightarrow>
            p s + length (block_start lang) \<le> length buf
            \<and> take (length (block_start lang)) (drop (p s) buf) = block_start lang
            \<and> p s' = p s + length (block_start lang))
         \<and> (\<not> in_block_comment s' \<and> in_block_comment s \<longrightarrow>
            p s + length (block_end lang) \<le> length buf
            \<and> take (length (block_end lang)) (drop (p s) buf) = block_end lang
            \<and> p s' = p s + length (block_end lang))
         \<and> (in_line_comment s' \<and> \<not> in_line_comment s \<longrightarrow>
            p s + length (line_comment lang) \<le> length buf
            \<and> take (length (line_comment lang)) (drop (p s) buf) = line_comment lang
            \<and> p s' = p s + length (line_comment lang))"
      by blast
  qed
qed

theorem marker_match_within_buffer_witness:
  "marker_at ''a//'' 1 ''//'' = Inr True \<and> 1 + length ''//'' \<le> length ''a//''
   \<and> length ''a/'' < 1 + length ''//'' \<and> marker_at ''a/'' 1 ''//'' = Inr False
   \<and> p ((init_scan ''a//'' init_file_stats)\<lparr>p := 1\<rparr>) < length ''a//''
   \<and> loop_body ''a//'' lang_C ((init_scan ''a//'' init_file_stats)\<lparr>p := 1\<rparr>)
       = Inr ((init_scan ''a//'' init_file_stats)\<lparr>p := 3, in_line_comment := True\<rparr>)
   \<and> 1 + length (line_comment lang_C) \<le> length ''a//''
   \<and> loop_body ''a/'' lang_C ((init_scan ''a/'' init_file_stats)\<lparr>p := 0\<rparr>)
       = Inr ((init_scan ''a/'' init_file_stats)\<lparr>p := 1, has_code := True\<rparr>)"
proof -
  let ?s = "(init_scan ''a//'' init_file_stats)\<lparr>p := 1\<rparr>"
  let ?s' = "(init_scan ''a//'' init_file_stats)\<lparr>p := 3, in_line_comment := True\<rparr>"
  note fits = marker_match_within_buffer [of "''a//''" 1 "''//''" lang_C init_file_stats]
  note too_long = marker_match_within_buffer [of "''a/''" 1 "''//''" lang_C init_file_stats]
  have step: "loop_body ''a//'' lang_C ?s = Inr ?s'"
    by (simp add: scanner_defs C_defs)
  from fits have "marker_at ''a//'' 1 ''//'' = Inr True \<longrightarrow> 1 + length ''//'' \<le> length ''a//''"
    by blast
  moreover from too_long
  have "length ''a/'' < 1 + length ''//'' \<longrightarrow> marker_at ''a/'' 1 ''//'' = Inr False"
    by blast
  moreover from fits
  have "p ?s < length ''a//'' \<and> loop_body ''a//'' lang_C ?s = Inr ?s' \<longrightarrow>
          (in_line_comment ?s' \<and> \<not> in_line_comment ?s \<longrightarrow>
             p ?s + length (line_comment lang_C) \<le> length ''a//'')"
    by blast
  ultimately show ?thesis using step
    by (simp add: scanner_defs C_defs)
qed

text \<open>
  C9. With the cursor on the final byte the loop takes the end-of-line branch, whatever
  that byte is: the line is classified with the flags as they are and \<open>has_code\<close> is
  reset. A step that sets \<open>has_code\<close> is always at a byte before the final one, so the
  final byte never sets it. A buffer of one byte, such as \<^verbatim>\<open>x\<close>, is one blank line and
  no code line.
\<close>

theorem final_byte_never_code:
  "(\<forall>s. p s + 1 = length buf \<longrightarrow>
       loop_body buf lang s = Inr (end_of_line s) \<and> \<not> has_code (end_of_line s)
       \<and> p (end_of_line s) = length buf \<and> stats (end_of_line s) = classify_line s)
   \<and> (\<forall>s s'. p s < length buf \<and> loop_body buf lang s = Inr s' \<and> has_code s' \<and> \<not> has_code s
         \<longrightarrow> p s + 1 < length buf)
   \<and> count_lines [c] lang init_file_stats
       = Some (Inr (init_file_stats\<lparr>size_f := 1, lines_blank := 1\<rparr>))
   \<and> count_lines ''x'' lang_C init_file_stats
       = Some (Inr (init_file_stats\<lparr>size_f := 1, lines_code := 0, lines_blank := 1\<rparr>))"
proof (intro conjI allI impI)
  fix s :: scan_state assume a: "p s + 1 = length buf"
  then have "p s < length buf" "eol_at buf (p s)" by (simp_all add: eol_at_def)
  then show "loop_body buf lang s = Inr (end_of_line s)"
    unfolding end_of_line_def by (rule loop_body_eol)
  show "\<not> has_code (end_of_line s)" by (simp add: end_of_line_def)
  from a show "p (end_of_line s) = length buf" by (simp add: end_of_line_def)
  show "stats (end_of_line s) = classify_line s" by (simp add: end_of_line_def)
next
  fix s s' :: scan_state
  assume a: "p s < length buf \<and> loop_body buf lang s = Inr s' \<and> has_code s' \<and> \<not> has_code s"
  show "p s + 1 < length buf"
  proof (rule ccontr)
    assume "\<not> p s + 1 < length buf"
    with a have "p s < length buf" "eol_at buf (p s)" by (simp_all add: eol_at_def)
    from loop_body_eol [OF this, of lang] a show False by auto
  qed
next
  show "count_lines [c] lang init_file_stats
       = Some (Inr (init_file_stats\<lparr>size_f := 1, lines_blank := 1\<rparr>))"
    by (simp add: scanner_defs scan_loop.simps)
next
  show "count_lines ''x'' lang_C init_file_stats
       = Some (Inr (init_file_stats\<lparr>size_f := 1, lines_code := 0, lines_blank := 1\<rparr>))"
    by (simp add: scanner_defs scan_loop.simps)
qed

theorem final_byte_never_code_witness:
  "p ((init_scan ''ab'' init_file_stats)\<lparr>p := 1, has_code := True\<rparr>) + 1 = length ''ab''
   \<and> loop_body ''ab'' lang_C ((init_scan ''ab'' init_file_stats)\<lparr>p := 1, has_code := True\<rparr>)
       = Inr (end_of_line ((init_scan ''ab'' init_file_stats)\<lparr>p := 1, has_code := True\<rparr>))
   \<and> \<not> has_code (end_of_line ((init_scan ''ab'' init_file_stats)\<lparr>p := 1, has_code := True\<rparr>))
   \<and> p (init_scan ''ab'' init_file_stats) < length ''ab''
   \<and> loop_body ''ab'' lang_C (init_scan ''ab'' init_file_stats)
       = Inr ((init_scan ''ab'' init_file_stats)\<lparr>p := 1, has_code := True\<rparr>)
   \<and> \<not> has_code (init_scan ''ab'' init_file_stats)
   \<and> p (init_scan ''ab'' init_file_stats) + 1 < length ''ab''"
proof -
  note t = final_byte_never_code [of "''ab''" lang_C "CHR ''x''"]
  have step: "loop_body ''ab'' lang_C (init_scan ''ab'' init_file_stats)
       = Inr ((init_scan ''ab'' init_file_stats)\<lparr>p := 1, has_code := True\<rparr>)"
    by (simp add: scanner_defs C_defs)
  from t have "p ((init_scan ''ab'' init_file_stats)\<lparr>p := 1, has_code := True\<rparr>) + 1 = length ''ab''
      \<longrightarrow> loop_body ''ab'' lang_C ((init_scan ''ab'' init_file_stats)\<lparr>p := 1, has_code := True\<rparr>)
       = Inr (end_of_line ((init_scan ''ab'' init_file_stats)\<lparr>p := 1, has_code := True\<rparr>))"
    by blast
  moreover from t have "p (init_scan ''ab'' init_file_stats) < length ''ab''
      \<and> loop_body ''ab'' lang_C (init_scan ''ab'' init_file_stats)
           = Inr ((init_scan ''ab'' init_file_stats)\<lparr>p := 1, has_code := True\<rparr>)
      \<and> has_code ((init_scan ''ab'' init_file_stats)\<lparr>p := 1, has_code := True\<rparr>)
      \<and> \<not> has_code (init_scan ''ab'' init_file_stats)
      \<longrightarrow> p (init_scan ''ab'' init_file_stats) + 1 < length ''ab''"
    by blast
  ultimately show ?thesis using step
    by (simp add: init_scan_def end_of_line_def)
qed

text \<open>
  C10. In every state the loop reaches with a string open, the cursor is past the start
  of the buffer, so the byte before the cursor exists; the look-back never faults. A
  string is only opened by a step that consumes a quote byte.
\<close>

theorem lookback_in_bounds:
  "(\<forall>n s. iterate_body n buf lang (init_scan buf st) = Inr s \<and> in_string s \<longrightarrow>
       0 < p s \<and> p s \<le> length buf \<and> peek buf (int (p s) - 1) = Some (buf ! (p s - 1)))
   \<and> (\<forall>n. iterate_body n buf lang (init_scan buf st) \<noteq> Inl LookbackOutOfBounds)
   \<and> count_lines buf lang st \<noteq> Some (Inl LookbackOutOfBounds)
   \<and> (\<forall>s s'. \<not> in_string s \<and> p s < length buf \<and> loop_body buf lang s = Inr s' \<and> in_string s' \<longrightarrow>
        p s' = p s + 1 \<and> (buf ! p s = dquote \<or> buf ! p s = squote))"
proof (intro conjI allI impI)
  fix n s assume a: "iterate_body n buf lang (init_scan buf st) = Inr s \<and> in_string s"
  from iterate_body_cursor_inv [OF cursor_inv_init [of buf st], where n = n and lang = lang] a
  have "cursor_inv buf s" by auto
  with a have pos: "0 < p s" and le: "p s \<le> length buf" by (simp_all add: cursor_inv_def)
  from pos show "0 < p s" .
  from le show "p s \<le> length buf" .
  from pos have "nat (int (p s) - 1) = p s - 1" by (simp add: nat_diff_distrib)
  with pos le show "peek buf (int (p s) - 1) = Some (buf ! (p s - 1))"
    by (simp add: peek_def)
next
  fix n show "iterate_body n buf lang (init_scan buf st) \<noteq> Inl LookbackOutOfBounds"
    by (rule iterate_body_no_fault)
next
  show "count_lines buf lang st \<noteq> Some (Inl LookbackOutOfBounds)"
    by (rule count_lines_no_fault)
next
  fix s s' :: scan_state
  assume a: "\<not> in_string s \<and> p s < length buf \<and> loop_body buf lang s = Inr s' \<and> in_string s'"
  then have "\<not> in_string s" "p s < length buf" "loop_body buf lang s = Inr s'" "in_string s'"
    by simp_all
  from loop_body_enters_string [OF this]
  show "p s' = p s + 1" "buf ! p s = dquote \<or> buf ! p s = squote" by simp_all
qed

theorem lookback_in_bounds_witness:
  "iterate_body 1 [dquote, CHR ''a'', newline] lang_C
      (init_scan [dquote, CHR ''a'', newline] init_file_stats)
     = Inr ((init_scan [dquote, CHR ''a'', newline] init_file_stats)
              \<lparr>p := 1, in_string := True, string_char := dquote, has_code := True\<rparr>)
   \<and> in_string ((init_scan [dquote, CHR ''a'', newline] init_file_stats)
              \<lparr>p := 1, in_string := True, string_char := dquote, has_code := True\<rparr>)
   \<and> peek [dquote, CHR ''a'', newline] (int 1 - 1) = Some dquote
   \<and> \<not> in_string (init_scan [dquote, CHR ''a'', newline] init_file_stats)
   \<and> loop_body [dquote, CHR ''a'', newline] lang_C
        (init_scan [dquote, CHR ''a'', newline] init_file_stats)
     = Inr ((init_scan [dquote, CHR ''a'', newline] init_file_stats)
              \<lparr>p := 1, in_string := True, string_char := dquote, has_code := True\<rparr>)
   \<and> [dquote, CHR ''a'', newline] ! 0 = dquote"
  using lookback_in_bounds [of "[dquote, CHR ''a'', newline]" lang_C init_file_stats]
  by (simp add: scanner_defs C_defs)

section \<open>Failing files in \<^verbatim>\<open>process_directory\<close> and \<^verbatim>\<open>main\<close>\<close>

lemma process_file_fails:
  assumes "file_fails pth f"
  shows "\<exists>rc st. process_file pth f = Some (Inr (rc, st)) \<and> rc \<noteq> CLOC_SUCCESS"
  using assms
  by (auto simp: file_fails_def process_file_def Let_def CLOC_SUCCESS_def CLOC_ERROR_IO_def
      CLOC_ERROR_ARG_def split: option.splits)

lemma process_entries_skips:
  assumes "process_file (pth @ ''/'' @ d_name) f = Some (Inr (rc, st))" and "rc \<noteq> CLOC_SUCCESS"
  shows "process_entries pth (pre @ (d_name, Regular f) # rest) cb u result
         = process_entries pth (pre @ rest) cb u result"
proof (induction pre arbitrary: u result cb)
  case Nil
  from assms show ?case by simp
next
  case (Cons e pre)
  obtain n node where e: "e = (n, node)" by (cases e)
  show ?case
    unfolding e
    by (cases node) (simp_all add: Cons.IH split: option.splits sum.splits prod.splits)
qed

lemma process_entries_skips_nostat:
  "process_entries pth (pre @ (d_name, NoStat) # rest) cb u result
     = process_entries pth (pre @ rest) cb u result"
proof (induction pre arbitrary: u result cb)
  case Nil
  show ?case by simp
next
  case (Cons e pre)
  obtain n node where e: "e = (n, node)" by (cases e)
  show ?case
    unfolding e
    by (cases node) (simp_all add: Cons.IH split: option.splits sum.splits prod.splits)
qed

lemma main_loop_exit_sticky:
  "main_loop args 1 g = Some (Inr (e, g')) \<Longrightarrow> e = 1"
proof (induction args arbitrary: g)
  case Nil
  then show ?case by simp
next
  case (Cons a args)
  obtain n node where a: "a = (n, node)" by (cases a)
  from Cons.prems show ?case
    unfolding a
    by (cases node) (auto split: option.splits sum.splits prod.splits if_splits dest: Cons.IH)
qed

lemma languages_nonempty: "lang \<in> set languages \<Longrightarrow> nonempty_markers lang"
  by (auto simp: languages_def c_like_def nonempty_markers_def)

lemma detect_language_in_table:
  assumes "detect_language pth f = Some lang"
  shows "lang \<in> set languages"
proof -
  have 0: "languages ! 0 \<in> set languages" and 1: "languages ! 1 \<in> set languages"
    by (simp_all add: languages_def)
  from assms 0 1 show ?thesis
    by (auto simp: detect_language_def find_Some_iff split: option.splits if_splits)
qed

lemma process_file_ok:
  assumes "\<not> file_fails pth f"
  shows "\<exists>st. process_file pth f = Some (Inr (CLOC_SUCCESS, st))"
proof -
  from assms obtain lang where lang: "detect_language pth f = Some lang"
    and ok: "open_ok f" "fstat_ok f" "content f = [] \<or> mmap_ok f"
    by (auto simp: file_fails_def)
  from detect_language_in_table [OF lang] have "nonempty_markers lang"
    by (rule languages_nonempty)
  from count_lines_returns [OF this] obtain st' where
    "count_lines (content f) lang
       (init_file_stats\<lparr>path := take (CLOC_MAX_PATH - 1) pth, language := lang_id lang\<rparr>)
     = Some (Inr st')" by blast
  with lang ok show ?thesis by (auto simp: process_file_def Let_def)
qed

text \<open>The callers always return: the table has no empty marker and no id past its end.\<close>

lemma lang_id_in_table: "lang \<in> set languages \<Longrightarrow> unat (lang_id lang) \<le> length languages"
  by (auto simp: languages_def c_like_def CLOC_LANG_C_def CLOC_LANG_CPP_def CLOC_LANG_PYTHON_def
      CLOC_LANG_JAVA_def CLOC_LANG_GO_def CLOC_LANG_RUST_def CLOC_LANG_JS_def)

lemma process_file_returns:
  "\<exists>rc st. process_file pth f = Some (Inr (rc, st))
     \<and> (rc = CLOC_SUCCESS \<longrightarrow> unat (language st) \<le> length languages)"
proof (cases "detect_language pth f")
  case None
  then show ?thesis
    by (simp add: process_file_def Let_def CLOC_SUCCESS_def CLOC_ERROR_ARG_def)
next
  case (Some lang)
  let ?st1 = "init_file_stats\<lparr>path := take (CLOC_MAX_PATH - 1) pth, language := lang_id lang\<rparr>"
  from detect_language_in_table [OF Some] have tab: "lang \<in> set languages" .
  then have id: "unat (lang_id lang) \<le> length languages" by (rule lang_id_in_table)
  from tab have "nonempty_markers lang" by (rule languages_nonempty)
  from count_lines_frame [OF this, of "content f" ?st1] obtain st2 where
    st2: "count_lines (content f) lang ?st1 = Some (Inr st2)" "language st2 = language ?st1"
    by blast
  with Some id show ?thesis
    by (auto simp: process_file_def Let_def CLOC_SUCCESS_def CLOC_ERROR_IO_def)
qed

lemma languages_name_returns:
  "i \<le> length languages \<Longrightarrow> \<exists>n. languages_name i = Inr n"
  by (cases "i < length languages") (simp_all add: languages_name_def)

lemma update_stats_callback_returns:
  assumes "unat (language fs) \<le> length languages"
  shows "\<exists>c g'. update_stats_callback fs g = Some (Inr (c, g'))"
proof -
  from languages_name_returns [OF assms] obtain n where
    "languages_name (unat (language fs)) = Inr n" by blast
  then show ?thesis
    by (auto simp: update_stats_callback_def split: option.splits)
qed

lemma process_entries_returns:
  assumes sub: "\<And>d node pth g. (d, node) \<in> set es \<Longrightarrow>
                  \<exists>r g'. process_directory pth node (Some update_stats_callback) g = Some (Inr (r, g'))"
  shows "\<exists>r g'. process_entries pth es (Some update_stats_callback) g result = Some (Inr (r, g'))"
  using sub
proof (induction es arbitrary: g result)
  case Nil
  show ?case by simp
next
  case (Cons e es)
  obtain d_name node where e: "e = (d_name, node)" by (cases e)
  have rest: "\<exists>r g'. process_entries pth es (Some update_stats_callback) g result = Some (Inr (r, g'))"
    for g result
  proof (rule Cons.IH)
    fix d node pth g assume "(d, node) \<in> set es"
    then have "(d, node) \<in> set (e # es)" by simp
    then show "\<exists>r g'. process_directory pth node (Some update_stats_callback) g = Some (Inr (r, g'))"
      by (rule Cons.prems)
  qed
  show ?case
  proof (cases "hidden d_name \<or> length pth + length d_name + 2 > CLOC_MAX_PATH")
    case True
    with rest [of g result] e show ?thesis by auto
  next
    case False
    then have nh: "\<not> hidden d_name" and fit: "\<not> length pth + length d_name + 2 > CLOC_MAX_PATH"
      by simp_all
    show ?thesis
    proof (cases node)
      case NoStat
      with nh fit e rest [of g result] show ?thesis by simp
    next
      case (Special f)
      with nh fit e rest [of g result] show ?thesis by simp
    next
      case (Directory ok entries)
      from Cons.prems [of d_name node "pth @ ''/'' @ d_name" g] e Directory obtain r g1 where
        d: "process_directory (pth @ ''/'' @ d_name) (Directory ok entries)
              (Some update_stats_callback) g = Some (Inr (r, g1))" by auto
      show ?thesis
      proof (cases "r = CLOC_SUCCESS")
        case False
        with nh fit e Directory d show ?thesis by simp
      next
        case True
        with nh fit e Directory d rest [of g1 r] show ?thesis by simp
      qed
    next
      case (Regular f)
      from process_file_returns [of "pth @ ''/'' @ d_name" f] obtain rc st where
        pf: "process_file (pth @ ''/'' @ d_name) f = Some (Inr (rc, st))"
        "rc = CLOC_SUCCESS \<longrightarrow> unat (language st) \<le> length languages" by blast
      show ?thesis
      proof (cases "rc = CLOC_SUCCESS")
        case False
        with nh fit e Regular pf rest [of g result] show ?thesis by simp
      next
        case True
        with pf(2) have "unat (language st) \<le> length languages" by simp
        from update_stats_callback_returns [OF this, of g] obtain c g1 where
          cb: "update_stats_callback st g = Some (Inr (c, g1))" by blast
        show ?thesis
        proof (cases "c = 0")
          case False
          with nh fit e Regular pf True cb show ?thesis by simp
        next
          case c0: True
          with nh fit e Regular pf True cb rest [of g1 result] show ?thesis by simp
        qed
      qed
    qed
  qed
qed

lemma process_directory_returns:
  "\<exists>r g'. process_directory pth node (Some update_stats_callback) g = Some (Inr (r, g'))"
proof (induction node arbitrary: pth g)
  case (Directory ok entries)
  show ?case
  proof (cases ok)
    case False
    then show ?thesis by simp
  next
    case True
    have "\<exists>r g'. process_entries pth entries (Some update_stats_callback) g CLOC_SUCCESS
            = Some (Inr (r, g'))"
    proof (rule process_entries_returns)
      fix d node pth g assume "(d, node) \<in> set entries"
      then show "\<exists>r g'. process_directory pth node (Some update_stats_callback) g = Some (Inr (r, g'))"
        by (intro Directory.IH [of "(d, node)"]) auto
    qed
    with True show ?thesis by simp
  qed
qed simp_all

lemma main_loop_returns:
  "\<exists>e g'. main_loop args exit_code g = Some (Inr (e, g'))"
proof (induction args arbitrary: exit_code g)
  case Nil
  show ?case by simp
next
  case (Cons a args)
  obtain arg node where a: "a = (arg, node)" by (cases a)
  have reg: "\<exists>e g'. (case process_file arg f of None \<Rightarrow> None | Some (Inl e) \<Rightarrow> Some (Inl e)
            | Some (Inr (rc, st)) \<Rightarrow>
               if rc = CLOC_SUCCESS then
                 (case update_stats_callback st g of None \<Rightarrow> None | Some (Inl e) \<Rightarrow> Some (Inl e)
                  | Some (Inr (c, g')) \<Rightarrow> main_loop args exit_code g')
               else main_loop args 1 g) = Some (Inr (e, g'))" for f
  proof -
    from process_file_returns [of arg f] obtain rc st where
      pf: "process_file arg f = Some (Inr (rc, st))"
      "rc = CLOC_SUCCESS \<longrightarrow> unat (language st) \<le> length languages" by blast
    show ?thesis
    proof (cases "rc = CLOC_SUCCESS")
      case False
      with pf Cons.IH [of 1 g] show ?thesis by simp
    next
      case True
      with pf(2) have "unat (language st) \<le> length languages" by simp
      from update_stats_callback_returns [OF this, of g] obtain c g1 where
        "update_stats_callback st g = Some (Inr (c, g1))" by blast
      with pf True Cons.IH [of exit_code g1] show ?thesis by simp
    qed
  qed
  show ?case
  proof (cases node)
    case NoStat
    with a Cons.IH [of 1 g] show ?thesis by simp
  next
    case (Regular f)
    with a reg [of f] show ?thesis by simp
  next
    case (Special f)
    with a reg [of f] show ?thesis by simp
  next
    case (Directory ok entries)
    from process_directory_returns [of arg "Directory ok entries" g] obtain r g1 where
      "process_directory arg (Directory ok entries) (Some update_stats_callback) g
         = Some (Inr (r, g1))" by blast
    with a Directory Cons.IH [of "if r \<noteq> CLOC_SUCCESS then 1 else exit_code" g1]
    show ?thesis by simp
  qed
qed

text \<open>The loop over a list of arguments in two parts.\<close>

lemma main_loop_append:
  "main_loop (pre @ args) exit_code g =
     (case main_loop pre exit_code g of
        None \<Rightarrow> None
      | Some (Inl e) \<Rightarrow> Some (Inl e)
      | Some (Inr (e, g')) \<Rightarrow> main_loop args e g')"
proof (induction pre arbitrary: exit_code g)
  case Nil
  show ?case by simp
next
  case (Cons a pre)
  obtain arg node where a: "a = (arg, node)" by (cases a)
  show ?case
    unfolding a
    by (cases node) (simp_all add: Cons.IH split: option.splits sum.splits prod.splits)
qed

lemma main_loop_exit_one:
  "\<exists>g'. main_loop args 1 g = Some (Inr (1, g'))"
  using main_loop_returns [of args 1 g] main_loop_exit_sticky [of args g] by auto

lemma main_loop_failed_argument:
  assumes "\<And>e1 g1. main_loop ((pth, node) # args) e1 g1 = main_loop args 1 g1"
  shows "\<exists>g'. main_loop (pre @ (pth, node) # args) exit_code g = Some (Inr (1, g'))"
proof -
  from main_loop_returns [of pre exit_code g] obtain e1 g1 where
    "main_loop pre exit_code g = Some (Inr (e1, g1))" by blast
  then have "main_loop (pre @ (pth, node) # args) exit_code g
               = main_loop ((pth, node) # args) e1 g1"
    by (simp only: main_loop_append option.case sum.case prod.case)
  then have "main_loop (pre @ (pth, node) # args) exit_code g = main_loop args 1 g1"
    by (simp only: assms)
  with main_loop_exit_one [of args g1] show ?thesis by simp
qed

lemmas callers_defs =
  main_def process_file_def detect_language_def languages_def hidden_def
  CLOC_MAX_PATH_def CLOC_MAX_LANGUAGES_def MAX_EXAMINE_SIZE_def
  CLOC_SUCCESS_def CLOC_ERROR_IO_def CLOC_ERROR_ARG_def CLOC_ERROR_LIMIT_def
  update_stats_callback_def languages_name_def add_file_def is_cpp_file_def cpp_keywords_def
  CLOC_LANG_C_def CLOC_LANG_CPP_def file_fails_def readable_def unreadable_def

text \<open>
  C3. The claim: a file that fails inside a directory scan is skipped, the scan goes on,
  and the exit status shows that a failure occurred. The last part does not hold:
  \<^verbatim>\<open>process_directory\<close> drops the code of \<^verbatim>\<open>process_file\<close>, so a directory with a C file
  that cannot be opened and a C file that can gives exit status 0, with the second
  file counted (under the name at index 1 of the table, which is what
  \<^verbatim>\<open>languages[file_stats->language]\<close> selects for a C file).
\<close>

theorem directory_failure_exit_status_zero:
  "file_fails ''d/a.c'' (unreadable ''x'')
   \<and> main True
        [(''d'', Directory True
           [(''a.c'', Regular (unreadable ''x'')),
            (''b.c'', Regular (readable (''int x;'' @ [newline])))])]
      = Some (Inr (0, [\<lparr>name_s = Some ''C++'', files = 1, lines_code_s = 1, lines_comment_s = 0,
                         lines_blank_s = 0, bytes = 7\<rparr>]))"
  by (simp add: callers_defs scanner_defs c_like_def scan_loop.simps)

text \<open>
  C3, as the code has it. \<open>file_fails\<close> is exactly a return of \<^verbatim>\<open>process_file\<close> other
  than \<^verbatim>\<open>CLOC_SUCCESS\<close>. A failing regular file anywhere among the entries of a
  directory is skipped: the scan of the other entries, the result of
  \<^verbatim>\<open>process_directory\<close> and what \<^verbatim>\<open>main\<close> returns are the same as without that file, so
  the exit status does not show the failure; an entry whose \<^verbatim>\<open>lstat\<close> fails is skipped in
  the same way. A failing file named on the command line, or an argument whose
  \<^verbatim>\<open>stat\<close> fails, is skipped too, the other arguments are processed, and the exit
  status is 1: the scan of a directory and the loop of \<^verbatim>\<open>main\<close> always return, and
  \<^verbatim>\<open>main\<close> returns 1 whenever one of its arguments, at any place, fails in this way.
\<close>

theorem directory_scan_skips_failed_file:
  "(file_fails pth f \<longleftrightarrow>
      (\<exists>rc st. process_file pth f = Some (Inr (rc, st)) \<and> rc \<noteq> CLOC_SUCCESS))
   \<and> (file_fails (dir @ ''/'' @ d_name) f \<longrightarrow>
        process_entries dir (pre @ (d_name, Regular f) # rest) cb u result
          = process_entries dir (pre @ rest) cb u result
        \<and> process_directory dir (Directory ok (pre @ (d_name, Regular f) # rest)) cb u
          = process_directory dir (Directory ok (pre @ rest)) cb u
        \<and> main c ((dir, Directory ok (pre @ (d_name, Regular f) # rest)) # args)
          = main c ((dir, Directory ok (pre @ rest)) # args))
   \<and> process_entries dir (pre @ (d_name, NoStat) # rest) cb u result
       = process_entries dir (pre @ rest) cb u result
   \<and> (file_fails pth f \<longrightarrow>
        main_loop ((pth, Regular f) # args) exit_code g = main_loop args 1 g
        \<and> (\<forall>e g'. main_loop args 1 g = Some (Inr (e, g')) \<longrightarrow> e = 1))
   \<and> main_loop ((pth, NoStat) # args) exit_code g = main_loop args 1 g
   \<and> (\<exists>r g'. process_directory dir node (Some update_stats_callback) g = Some (Inr (r, g')))
   \<and> (\<exists>e g'. main_loop args exit_code g = Some (Inr (e, g')))
   \<and> (\<exists>e g'. main c args = Some (Inr (e, g')))
   \<and> (file_fails pth f \<longrightarrow>
        (\<exists>g'. main_loop (args0 @ (pth, Regular f) # args) exit_code g = Some (Inr (1, g')))
        \<and> (\<exists>g'. main c (args0 @ (pth, Regular f) # args) = Some (Inr (1, g'))))
   \<and> (\<exists>g'. main_loop (args0 @ (pth, NoStat) # args) exit_code g = Some (Inr (1, g')))
   \<and> (\<exists>g'. main c (args0 @ (pth, NoStat) # args) = Some (Inr (1, g')))"
proof (intro conjI impI allI)
  show "\<exists>r g'. process_directory dir node (Some update_stats_callback) g = Some (Inr (r, g'))"
    by (rule process_directory_returns)
next
  show "\<exists>e g'. main_loop args exit_code g = Some (Inr (e, g'))"
    by (rule main_loop_returns)
next
  show "\<exists>e g'. main c args = Some (Inr (e, g'))"
    using main_loop_returns [of args 0 "[]"] by (simp add: main_def)
next
  assume "file_fails pth f"
  from process_file_fails [OF this]
  have skip: "main_loop ((pth, Regular f) # args) e1 g1 = main_loop args 1 g1" for e1 g1
    by auto
  then show "\<exists>g'. main_loop (args0 @ (pth, Regular f) # args) exit_code g = Some (Inr (1, g'))"
    by (rule main_loop_failed_argument)
  from skip have "\<exists>g'. main_loop (args0 @ (pth, Regular f) # args) 0 [] = Some (Inr (1, g'))"
    by (rule main_loop_failed_argument)
  then show "\<exists>g'. main c (args0 @ (pth, Regular f) # args) = Some (Inr (1, g'))"
    by (simp add: main_def)
next
  have skip: "main_loop ((pth, NoStat) # args) e1 g1 = main_loop args 1 g1" for e1 g1
    by simp
  then show "\<exists>g'. main_loop (args0 @ (pth, NoStat) # args) exit_code g = Some (Inr (1, g'))"
    by (rule main_loop_failed_argument)
  from skip have "\<exists>g'. main_loop (args0 @ (pth, NoStat) # args) 0 [] = Some (Inr (1, g'))"
    by (rule main_loop_failed_argument)
  then show "\<exists>g'. main c (args0 @ (pth, NoStat) # args) = Some (Inr (1, g'))"
    by (simp add: main_def)
next
  show "process_entries dir (pre @ (d_name, NoStat) # rest) cb u result
       = process_entries dir (pre @ rest) cb u result"
    by (rule process_entries_skips_nostat)
next
  show "main_loop ((pth, NoStat) # args) exit_code g = main_loop args 1 g" by simp
next
  show "file_fails pth f \<longleftrightarrow>
      (\<exists>rc st. process_file pth f = Some (Inr (rc, st)) \<and> rc \<noteq> CLOC_SUCCESS)"
  proof
    assume "file_fails pth f"
    then show "\<exists>rc st. process_file pth f = Some (Inr (rc, st)) \<and> rc \<noteq> CLOC_SUCCESS"
      by (rule process_file_fails)
  next
    assume a: "\<exists>rc st. process_file pth f = Some (Inr (rc, st)) \<and> rc \<noteq> CLOC_SUCCESS"
    show "file_fails pth f"
    proof (rule ccontr)
      assume "\<not> file_fails pth f"
      from process_file_ok [OF this] a show False by auto
    qed
  qed
next
  assume "file_fails (dir @ ''/'' @ d_name) f"
  from process_file_fails [OF this] obtain rc st where
    rc: "process_file (dir @ ''/'' @ d_name) f = Some (Inr (rc, st))" "rc \<noteq> CLOC_SUCCESS"
    by blast
  note skip = process_entries_skips [OF rc]
  show "process_entries dir (pre @ (d_name, Regular f) # rest) cb u result
          = process_entries dir (pre @ rest) cb u result" by (rule skip)
  show "process_directory dir (Directory ok (pre @ (d_name, Regular f) # rest)) cb u
          = process_directory dir (Directory ok (pre @ rest)) cb u"
    by (simp add: skip)
  show "main c ((dir, Directory ok (pre @ (d_name, Regular f) # rest)) # args)
          = main c ((dir, Directory ok (pre @ rest)) # args)"
    by (simp add: main_def skip)
next
  assume "file_fails pth f"
  from process_file_fails [OF this]
  show "main_loop ((pth, Regular f) # args) exit_code g = main_loop args 1 g" by auto
next
  fix e g' assume "main_loop args 1 g = Some (Inr (e, g'))"
  then show "e = 1" by (rule main_loop_exit_sticky)
qed

theorem directory_scan_skips_failed_file_witness:
  "file_fails (''d'' @ ''/'' @ ''a.c'') (unreadable ''x'')
   \<and> process_entries ''d''
        ([(''z.c'', Regular (readable ''y''))] @ (''a.c'', Regular (unreadable ''x''))
           # [(''b.c'', Regular (readable ''y''))])
        (Some update_stats_callback) [] CLOC_SUCCESS
      = process_entries ''d''
          ([(''z.c'', Regular (readable ''y''))] @ [(''b.c'', Regular (readable ''y''))])
          (Some update_stats_callback) [] CLOC_SUCCESS
   \<and> file_fails ''a.c'' (unreadable ''x'')
   \<and> main_loop ((''a.c'', Regular (unreadable ''x'')) # [(''b.c'', Regular (readable ''y''))]) 0 []
       = main_loop [(''b.c'', Regular (readable ''y''))] 1 []
   \<and> main_loop [(''b.c'', Regular (readable ''y''))] 1 []
       = Some (Inr (1, [\<lparr>name_s = Some ''C++'', files = 1, lines_code_s = 0, lines_comment_s = 0,
                          lines_blank_s = 1, bytes = 1\<rparr>]))
   \<and> main True ([(''z.c'', Regular (readable ''y''))] @ (''a.c'', Regular (unreadable ''x''))
                    # [(''b.c'', Regular (readable ''y''))])
       = Some (Inr (1, [\<lparr>name_s = Some ''C++'', files = 2, lines_code_s = 0, lines_comment_s = 0,
                          lines_blank_s = 2, bytes = 2\<rparr>]))"
proof -
  note t = directory_scan_skips_failed_file
    [where pth = "''a.c''" and f = "unreadable ''x''" and dir = "''d''" and d_name = "''a.c''"
       and pre = "[(''z.c'', Regular (readable ''y''))]"
       and rest = "[(''b.c'', Regular (readable ''y''))]"
       and cb = "Some update_stats_callback" and u = "[]" and result = CLOC_SUCCESS
       and args = "[(''b.c'', Regular (readable ''y''))]" and exit_code = 0 and g = "[]"
       and args0 = "[(''z.c'', Regular (readable ''y''))]" and c = True]
  have fails: "file_fails (''d'' @ ''/'' @ ''a.c'') (unreadable ''x'')"
    "file_fails ''a.c'' (unreadable ''x'')"
    by (simp_all add: file_fails_def unreadable_def readable_def)
  from t fails(1)
  have skipped: "process_entries ''d''
        ([(''z.c'', Regular (readable ''y''))] @ (''a.c'', Regular (unreadable ''x''))
           # [(''b.c'', Regular (readable ''y''))])
        (Some update_stats_callback) [] CLOC_SUCCESS
      = process_entries ''d''
          ([(''z.c'', Regular (readable ''y''))] @ [(''b.c'', Regular (readable ''y''))])
          (Some update_stats_callback) [] CLOC_SUCCESS"
    by blast
  from t fails(2)
  have top: "main_loop ((''a.c'', Regular (unreadable ''x'')) # [(''b.c'', Regular (readable ''y''))]) 0 []
       = main_loop [(''b.c'', Regular (readable ''y''))] 1 []"
    by blast
  from t fails(2)
  have "\<exists>g'. main True ([(''z.c'', Regular (readable ''y''))] @ (''a.c'', Regular (unreadable ''x''))
                    # [(''b.c'', Regular (readable ''y''))]) = Some (Inr (1, g'))"
    by blast
  then obtain g' where one:
    "main True ([(''z.c'', Regular (readable ''y''))] @ (''a.c'', Regular (unreadable ''x''))
                    # [(''b.c'', Regular (readable ''y''))]) = Some (Inr (1, g'))" by blast
  have rest_run: "main_loop [(''b.c'', Regular (readable ''y''))] 1 []
       = Some (Inr (1, [\<lparr>name_s = Some ''C++'', files = 1, lines_code_s = 0, lines_comment_s = 0,
                          lines_blank_s = 1, bytes = 1\<rparr>]))"
    by (simp add: callers_defs scanner_defs c_like_def scan_loop.simps)
  have all_run: "main True ([(''z.c'', Regular (readable ''y''))] @ (''a.c'', Regular (unreadable ''x''))
                    # [(''b.c'', Regular (readable ''y''))])
       = Some (Inr (1, [\<lparr>name_s = Some ''C++'', files = 2, lines_code_s = 0, lines_comment_s = 0,
                          lines_blank_s = 2, bytes = 2\<rparr>]))"
    by (simp add: callers_defs scanner_defs c_like_def scan_loop.simps)
  from fails skipped top rest_run all_run show ?thesis by (simp only: simp_thms)
qed

end
